theory Spec2Isabelle
  imports Main
begin

section \<open>JavaScript values\<close>

text \<open>
  The values a parsed workflow document can hold in a step's \<open>uses\<close> or \<open>name\<close> field.
  Numbers are integers here: a fractional number behaves like a nonzero integer and NaN
  like zero in every function below, which only ask whether a value is truthy and what
  \<open>typeof\<close> says about it.
\<close>

datatype js_value =
    JUndefined
  | JNull
  | JBool bool
  | JNumber int
  | JString string
  | JArray "js_value list"
  | JObject "(string \<times> js_value) list"

text \<open>
  What the handlers read of a thrown value that is neither null nor undefined: its
  \<open>status\<close>, when that property is a number, and the text a template literal prints for
  its \<open>message\<close>, when it has one. An error object has a message; a thrown string or plain
  object may have neither. The properties are data: a value whose \<open>status\<close> or \<open>message\<close>
  is an accessor, or whose message is a symbol, which no template literal prints, is not
  among the values of the model.
\<close>

datatype js_error = JsError (err_status: "int option") (err_message: "string option")

text \<open>
  A thrown value. Anything can be thrown, null and undefined too, and reading a property
  of these two throws in turn.
\<close>

datatype thrown = ThrownNull | ThrownUndefined | ThrownValue js_error

definition typeError :: "string \<Rightarrow> js_error" where
  "typeError m = JsError None (Some m)"

fun truthy :: "js_value \<Rightarrow> bool" where
  "truthy JUndefined = False"
| "truthy JNull = False"
| "truthy (JBool b) = b"
| "truthy (JNumber n) = (n \<noteq> 0)"
| "truthy (JString s) = (s \<noteq> [])"
| "truthy (JArray xs) = True"
| "truthy (JObject kvs) = True"

fun typeof :: "js_value \<Rightarrow> string" where
  "typeof JUndefined = ''undefined''"
| "typeof JNull = ''object''"
| "typeof (JBool b) = ''boolean''"
| "typeof (JNumber n) = ''number''"
| "typeof (JString s) = ''string''"
| "typeof (JArray xs) = ''object''"
| "typeof (JObject kvs) = ''object''"

text \<open>
  String methods called on a value. On a string they compute; on anything else the
  property is missing (or the receiver is null or undefined) and the call throws.
\<close>

fun includes_str :: "string \<Rightarrow> string \<Rightarrow> bool" where
  "includes_str [] p = (p = [])"
| "includes_str (c # cs) p = (take (length p) (c # cs) = p \<or> includes_str cs p)"

fun startsWith :: "js_value \<Rightarrow> string \<Rightarrow> js_error + bool" where
  "startsWith (JString s) p = Inr (take (length p) s = p)"
| "startsWith v p = Inl (typeError ''uses.startsWith is not a function'')"

fun includes_val :: "js_value \<Rightarrow> string \<Rightarrow> js_error + bool" where
  "includes_val (JString s) p = Inr (includes_str s p)"
| "includes_val (JArray xs) p = Inr (JString p \<in> set xs)"
| "includes_val v p = Inl (typeError ''uses.includes is not a function'')"

section \<open>Regular expressions, as backtracking matchers\<close>

text \<open>
  Each combinator takes the rest of the input and a continuation for what follows in the
  pattern; \<open>None\<close> is failure, which makes the caller try its next alternative. The
  quantifiers are greedy: the longest run first, then shorter ones.
\<close>

fun rx_star :: "(char \<Rightarrow> bool) \<Rightarrow> string \<Rightarrow> string \<Rightarrow> (string \<Rightarrow> string \<Rightarrow> 'a option) \<Rightarrow> 'a option" where
  "rx_star p acc [] k = k acc []"
| "rx_star p acc (c # cs) k =
     (if p c
      then (case rx_star p (acc @ [c]) cs k of Some r \<Rightarrow> Some r | None \<Rightarrow> k acc (c # cs))
      else k acc (c # cs))"

definition rx_plus :: "(char \<Rightarrow> bool) \<Rightarrow> string \<Rightarrow> (string \<Rightarrow> string \<Rightarrow> 'a option) \<Rightarrow> 'a option" where
  "rx_plus p s k = (case s of [] \<Rightarrow> None | c # cs \<Rightarrow> if p c then rx_star p [c] cs k else None)"

definition rx_lit :: "char \<Rightarrow> string \<Rightarrow> (string \<Rightarrow> 'a option) \<Rightarrow> 'a option" where
  "rx_lit x s k = (case s of [] \<Rightarrow> None | c # cs \<Rightarrow> if c = x then k cs else None)"

definition rx_opt :: "(string \<Rightarrow> (string \<Rightarrow> 'a option) \<Rightarrow> 'a option) \<Rightarrow> string \<Rightarrow> (string \<Rightarrow> 'a option) \<Rightarrow> 'a option" where
  "rx_opt m s k = (case m s k of Some r \<Rightarrow> Some r | None \<Rightarrow> k s)"

fun rx_count :: "nat \<Rightarrow> (char \<Rightarrow> bool) \<Rightarrow> string \<Rightarrow> (string \<Rightarrow> 'a option) \<Rightarrow> 'a option" where
  "rx_count 0 p s k = k s"
| "rx_count (Suc n) p s k = (case s of [] \<Rightarrow> None | c # cs \<Rightarrow> if p c then rx_count n p cs k else None)"

definition rx_end :: "string \<Rightarrow> 'a \<Rightarrow> 'a option" where
  "rx_end s r = (if s = [] then Some r else None)"

text \<open>
  The dot matches every character but a line terminator. The strings of the model are
  those of \<^typ>\<open>string\<close>, whose characters are the code units below U+0100. Of the four
  line terminators of the language, two are among them, line feed and carriage return;
  the other two, U+2028 and U+2029, which the dot refuses as well, are not, and a string
  that holds them, or any character from U+0100 on, is not a string of the model.
\<close>

definition rx_dot :: "char \<Rightarrow> bool" where
  "rx_dot c = (c \<noteq> CHR 0x0A \<and> c \<noteq> CHR 0x0D)"

section \<open>Parsing a \<open>uses\<close> string\<close>

record reference =
  owner :: string
  repo :: string
  ref :: string

text \<open>The pattern \<^verbatim>\<open>/^([^/]+)\/([^/@]+)(?:\/[^@]*)?@(.+)$/\<close>, with its three capture groups.\<close>

definition actionPattern :: "string \<Rightarrow> reference option" where
  "actionPattern s =
     rx_plus (\<lambda>c. c \<noteq> CHR ''/'') s (\<lambda>g1 s1.
     rx_lit CHR ''/'' s1 (\<lambda>s2.
     rx_plus (\<lambda>c. c \<noteq> CHR ''/'' \<and> c \<noteq> CHR ''@'') s2 (\<lambda>g2 s3.
     rx_opt (\<lambda>t k. rx_lit CHR ''/'' t (\<lambda>t1. rx_star (\<lambda>c. c \<noteq> CHR ''@'') [] t1 (\<lambda>sub. k))) s3 (\<lambda>s4.
     rx_lit CHR ''@'' s4 (\<lambda>s5.
     rx_plus rx_dot s5 (\<lambda>g3 s6.
     rx_end s6 \<lparr>owner = g1, repo = g2, ref = g3\<rparr>))))))"

fun match_str :: "js_value \<Rightarrow> js_error + reference option" where
  "match_str (JString s) = Inr (actionPattern s)"
| "match_str v = Inl (typeError ''uses.match is not a function'')"

definition parseActionReference :: "js_value \<Rightarrow> js_error + reference option" where
  "parseActionReference u =
     (if \<not> truthy u \<or> typeof u \<noteq> ''string'' then Inr None
      else case startsWith u ''./'' of
        Inl e \<Rightarrow> Inl e
      | Inr True \<Rightarrow> Inr None
      | Inr False \<Rightarrow>
          (case includes_val u ''://'' of
             Inl e \<Rightarrow> Inl e
           | Inr True \<Rightarrow> Inr None
           | Inr False \<Rightarrow> match_str u))"

section \<open>Exempt owners and full commit hashes\<close>

definition shouldExcludeAction :: "string \<Rightarrow> bool" where
  "shouldExcludeAction ow = (ow = ''actions'' \<or> ow = ''github'' \<or> ow = ''octokit'')"

text \<open>
  The class \<^verbatim>\<open>[a-f0-9]\<close> under the \<open>i\<close> flag: a character matches when it equals a
  character of the class up to case.
\<close>

definition hexClass :: "char \<Rightarrow> bool" where
  "hexClass c = (c \<in> set ''abcdef0123456789'' \<or> c \<in> set ''ABCDEF'')"

text \<open>The pattern \<^verbatim>\<open>/^[a-f0-9]{40}$/i\<close>.\<close>

definition isFullSHA :: "string \<Rightarrow> bool" where
  "isFullSHA r = (rx_count 40 hexClass r (\<lambda>s. rx_end s ()) \<noteq> None)"

text \<open>
  The file \<^verbatim>\<open>src/index.js\<close> holds a second copy of the exempt-owner check, with two
  owners only.
\<close>

definition shouldExcludeAction_index :: "string \<Rightarrow> bool" where
  "shouldExcludeAction_index ow = (ow = ''actions'' \<or> ow = ''github'')"

section \<open>Actions and the report\<close>

text \<open>The triple the resolver returns.\<close>

record outcome =
  immutable :: bool
  releaseFound :: bool
  message :: string

text \<open>
  An entry as \<^verbatim>\<open>extractActionsFromWorkflow\<close> pushes it: the parsed reference, the
  \<open>uses\<close> string it came from, the first-party flag, and where it was found.
\<close>

record actionRef = reference +
  uses :: string
  isFirstParty :: bool

record action = actionRef +
  workflowFile :: string
  jobName :: string
  stepName :: js_value

text \<open>
  An entry of the report. \<open>result\<close> is what the spread of the resolver's (or the cached)
  result contributed: \<open>None\<close> when there was nothing to spread. \<open>inWorkflow\<close> is the
  \<open>workflowFile\<close> property, which only the per-workflow entries have.
\<close>

record actionInfo = actionRef +
  result :: "outcome option"
  inWorkflow :: "string option"

record lists =
  mutable_actions :: "actionInfo list"
  immutable_actions :: "actionInfo list"
  firstParty_actions :: "actionInfo list"

text \<open>
  The report: the three flat lists and one triple of lists for each workflow file. The
  object \<open>byWorkflow\<close> is a map from file names; the order of its keys is not part of
  the model.
\<close>

record report = lists +
  byWorkflow :: "string \<rightharpoonup> lists"

section \<open>The remote collaborator and the diagnostics sink\<close>

text \<open>
  What \<^verbatim>\<open>octokit.rest.repos.getReleaseByTag\<close> does with a request: it resolves with a
  release, of which only the \<open>immutable\<close> property is read (\<^const>\<open>JUndefined\<close> when the
  release has none), or something is thrown inside the \<^verbatim>\<open>try\<close> block: the request is
  rejected, or the response has no release and reading it throws a \<^verbatim>\<open>TypeError\<close>. The
  client's own errors are error objects with a status, but the handler is written for
  whatever is thrown, so any \<^typ>\<open>thrown\<close> value may come back. The service has a state of
  its own, of any type \<open>'w\<close>, which a request may read and change.
\<close>

datatype response = Release js_value | Thrown thrown

type_synonym request = "string \<times> string \<times> string"

type_synonym 'w octokit = "'w \<Rightarrow> request \<Rightarrow> response \<times> 'w"

text \<open>
  The value of an output: a boolean, a literal text, or the JSON text of a list of file
  names or of report entries, kept as the list it prints.
\<close>

datatype output_value =
    OutBool bool
  | OutText string
  | OutNames "string list"
  | OutJson "actionInfo list"

text \<open>
  The state a run threads through: the remote service, the requests it has received
  (oldest first), and what the run has told \<^verbatim>\<open>core\<close>: information and warning lines,
  outputs, and the failure message once \<^verbatim>\<open>setFailed\<close> was called.
\<close>

record 'w run_state =
  world :: 'w
  requests :: "request list"
  infos :: "string list"
  warnings :: "string list"
  outputs :: "(string \<times> output_value) list"
  failed :: "string option"

definition info :: "string \<Rightarrow> 'w run_state \<Rightarrow> 'w run_state" where
  "info m st = st\<lparr>infos := infos st @ [m]\<rparr>"

definition warning :: "string \<Rightarrow> 'w run_state \<Rightarrow> 'w run_state" where
  "warning m st = st\<lparr>warnings := warnings st @ [m]\<rparr>"

definition getReleaseByTag :: "'w octokit \<Rightarrow> request \<Rightarrow> 'w run_state \<Rightarrow> response \<times> 'w run_state" where
  "getReleaseByTag oc rq st =
     (case oc (world st) rq of
        (resp, w) \<Rightarrow> (resp, st\<lparr>world := w, requests := requests st @ [rq]\<rparr>))"

text \<open>A template literal prints an absent property as \<^verbatim>\<open>undefined\<close>.\<close>

fun template :: "string option \<Rightarrow> string" where
  "template None = ''undefined''"
| "template (Some m) = m"

section \<open>Resolving one reference\<close>

text \<open>The body of the \<^verbatim>\<open>try\<close> block: \<open>Inl\<close> is what it throws.\<close>

definition tryGetRelease :: "'w octokit \<Rightarrow> string \<Rightarrow> string \<Rightarrow> string \<Rightarrow> 'w run_state \<Rightarrow> (thrown + outcome) \<times> 'w run_state" where
  "tryGetRelease oc ow rp r st =
     (case getReleaseByTag oc (ow, rp, r) st of
        (Thrown e, st1) \<Rightarrow> (Inl e, st1)
      | (Release imm, st1) \<Rightarrow>
          (let isImmutable = (imm = JBool True)
           in (Inr \<lparr>immutable = isImmutable, releaseFound = True,
                    message = (if isImmutable then ''Immutable release'' else ''Mutable release'')\<rparr>, st1)))"

text \<open>
  The resolver. Its handler reads \<open>error.status\<close> first, which throws a \<^verbatim>\<open>TypeError\<close> when
  the value caught is null or undefined; nothing catches that, so the resolver throws it.
\<close>

definition checkReleaseImmutability :: "'w octokit \<Rightarrow> string \<Rightarrow> string \<Rightarrow> string \<Rightarrow> 'w run_state \<Rightarrow> (js_error + outcome) \<times> 'w run_state" where
  "checkReleaseImmutability oc ow rp r st =
     (if isFullSHA r
      then (Inr \<lparr>immutable = True, releaseFound = False, message = ''Immutable (full SHA reference)''\<rparr>, st)
      else case tryGetRelease oc ow rp r st of
        (Inr res, st1) \<Rightarrow> (Inr res, st1)
      | (Inl ThrownNull, st1) \<Rightarrow>
          (Inl (typeError ''Cannot read properties of null (reading 'status')''), st1)
      | (Inl ThrownUndefined, st1) \<Rightarrow>
          (Inl (typeError ''Cannot read properties of undefined (reading 'status')''), st1)
      | (Inl (ThrownValue e), st1) \<Rightarrow>
          if err_status e = Some 404
          then (Inr \<lparr>immutable = False, releaseFound = False,
                     message = ''No release found for this reference''\<rparr>, st1)
          else (Inr \<lparr>immutable = False, releaseFound = False,
                     message = ''API error: '' @ template (err_message e)\<rparr>,
                warning (''API error checking '' @ ow @ ''/'' @ rp @ ''@'' @ r @ '': '' @ template (err_message e)) st1))"

section \<open>The \<^verbatim>\<open>Map\<close> of the language\<close>

text \<open>
  A \<^verbatim>\<open>Map\<close> keeps its keys in the order of their first insertion; setting a key that is
  present replaces the value and leaves the key where it is.
\<close>

fun map_set :: "('k \<times> 'v) list \<Rightarrow> 'k \<Rightarrow> 'v \<Rightarrow> ('k \<times> 'v) list" where
  "map_set [] k v = [(k, v)]"
| "map_set ((k', v') # m) k v = (if k' = k then (k', v) # m else (k', v') # map_set m k v)"

definition new_Map :: "('k \<times> 'v) list \<Rightarrow> ('k \<times> 'v) list" where
  "new_Map entries = foldl (\<lambda>m (k, v). map_set m k v) [] entries"

definition map_values :: "('k \<times> 'v) list \<Rightarrow> 'v list" where
  "map_values m = map snd m"

definition map_get :: "('k \<times> 'v) list \<Rightarrow> 'k \<Rightarrow> 'v option" where
  "map_get m k = map_of m k"

text \<open>\<^verbatim>\<open>Array.from(new Map(xs.map(a => [a.uses, a])).values())\<close>\<close>

definition uniqueByUses :: "action list \<Rightarrow> action list" where
  "uniqueByUses xs = map_values (new_Map (map (\<lambda>a. (uses a, a)) xs))"

section \<open>Checking all actions\<close>

type_synonym cache = "(string \<times> outcome) list"

text \<open>The loop over the unique first-party actions: no request, a fixed result.\<close>

fun firstPartyLoop :: "action list \<Rightarrow> cache \<Rightarrow> actionInfo list \<Rightarrow> cache \<times> actionInfo list" where
  "firstPartyLoop [] immutabilityCache firstParty = (immutabilityCache, firstParty)"
| "firstPartyLoop (a # as) immutabilityCache firstParty =
     (let actionInfo = \<lparr>owner = owner a, repo = repo a, ref = ref a, uses = uses a, isFirstParty = True,
                         result = Some \<lparr>immutable = True, releaseFound = False, message = ''First-party action''\<rparr>,
                         inWorkflow = None\<rparr>
      in firstPartyLoop as
           (map_set immutabilityCache (uses a)
              \<lparr>immutable = True, releaseFound = False, message = ''First-party action''\<rparr>)
           (firstParty @ [actionInfo]))"

text \<open>The line \<^verbatim>\<open>Checking ${action.owner}/${action.repo}@${action.ref}...\<close>\<close>

definition checkingLine :: "action \<Rightarrow> string" where
  "checkingLine a = ''Checking '' @ owner a @ ''/'' @ repo a @ ''@'' @ ref a @ ''...''"

text \<open>
  The loop over the unique third-party actions: one line of information and one call of
  the resolver for each, whose result goes into the cache and, spread into the entry,
  into one of the two flat lists.
\<close>

fun thirdPartyLoop :: "'w octokit \<Rightarrow> action list \<Rightarrow> cache \<Rightarrow> actionInfo list \<Rightarrow> actionInfo list \<Rightarrow> 'w run_state
    \<Rightarrow> (js_error + cache \<times> actionInfo list \<times> actionInfo list) \<times> 'w run_state" where
  "thirdPartyLoop oc [] immutabilityCache mutableL immutableL st = (Inr (immutabilityCache, mutableL, immutableL), st)"
| "thirdPartyLoop oc (a # as) immutabilityCache mutableL immutableL st =
     (case checkReleaseImmutability oc (owner a) (repo a) (ref a)
             (info (checkingLine a) st) of
        (Inl e, st1) \<Rightarrow> (Inl e, st1)
      | (Inr res, st1) \<Rightarrow>
          (let actionInfo = \<lparr>owner = owner a, repo = repo a, ref = ref a, uses = uses a, isFirstParty = False,
                              result = Some res, inWorkflow = None\<rparr>
           in if immutable res
              then thirdPartyLoop oc as (map_set immutabilityCache (uses a) res) mutableL (immutableL @ [actionInfo]) st1
              else thirdPartyLoop oc as (map_set immutabilityCache (uses a) res) (mutableL @ [actionInfo]) immutableL st1))"

text \<open>
  \<open>actionsByWorkflow\<close> is a plain object used as a dictionary, so a file name that is a
  property of \<^verbatim>\<open>Object.prototype\<close> finds an inherited, truthy value that has no
  \<^verbatim>\<open>push\<close>, and the call throws.
\<close>

definition objectPrototypeKeys :: "string list" where
  "objectPrototypeKeys =
     [''constructor'', ''__defineGetter__'', ''__defineSetter__'', ''hasOwnProperty'',
      ''__lookupGetter__'', ''__lookupSetter__'', ''isPrototypeOf'', ''propertyIsEnumerable'',
      ''toString'', ''valueOf'', ''__proto__'', ''toLocaleString'']"

fun groupByWorkflow :: "action list \<Rightarrow> (string \<times> action list) list \<Rightarrow> js_error + (string \<times> action list) list" where
  "groupByWorkflow [] actionsByWorkflow = Inr actionsByWorkflow"
| "groupByWorkflow (a # as) actionsByWorkflow =
     (case map_get actionsByWorkflow (workflowFile a) of
        Some xs \<Rightarrow> groupByWorkflow as (map_set actionsByWorkflow (workflowFile a) (xs @ [a]))
      | None \<Rightarrow>
          if workflowFile a \<in> set objectPrototypeKeys
          then Inl (typeError ''actionsByWorkflow[workflowFile].push is not a function'')
          else groupByWorkflow as (map_set actionsByWorkflow (workflowFile a) [a]))"

text \<open>
  The loop over the unique actions of one workflow. A third-party action whose key the
  cache lacks makes the read of \<open>cachedResult.immutable\<close> throw.
\<close>

fun categorize :: "cache \<Rightarrow> action list \<Rightarrow> lists \<Rightarrow> js_error + lists" where
  "categorize immutabilityCache [] acc = Inr acc"
| "categorize immutabilityCache (a # as) acc =
     (let cachedResult = map_get immutabilityCache (uses a);
          actionInfo = \<lparr>owner = owner a, repo = repo a, ref = ref a, uses = uses a,
                         isFirstParty = isFirstParty a, result = cachedResult,
                         inWorkflow = Some (workflowFile a)\<rparr>
      in if isFirstParty a
         then categorize immutabilityCache as (acc\<lparr>firstParty_actions := firstParty_actions acc @ [actionInfo]\<rparr>)
         else case cachedResult of
                None \<Rightarrow> Inl (typeError ''Cannot read properties of undefined (reading 'immutable')'')
              | Some c \<Rightarrow>
                  if immutable c
                  then categorize immutabilityCache as (acc\<lparr>immutable_actions := immutable_actions acc @ [actionInfo]\<rparr>)
                  else categorize immutabilityCache as (acc\<lparr>mutable_actions := mutable_actions acc @ [actionInfo]\<rparr>))"

text \<open>
  The loop over the entries of \<open>actionsByWorkflow\<close>. The entries do not depend on each
  other, so the order in which \<^verbatim>\<open>Object.entries\<close> lists them is not modelled.
\<close>

fun workflowLoop :: "cache \<Rightarrow> (string \<times> action list) list \<Rightarrow> (string \<rightharpoonup> lists) \<Rightarrow> js_error + (string \<rightharpoonup> lists)" where
  "workflowLoop immutabilityCache [] bw = Inr bw"
| "workflowLoop immutabilityCache ((f, workflowActions) # gs) bw =
     (case categorize immutabilityCache (uniqueByUses workflowActions)
             \<lparr>mutable_actions = [], immutable_actions = [], firstParty_actions = []\<rparr> of
        Inl e \<Rightarrow> Inl e
      | Inr ls \<Rightarrow> workflowLoop immutabilityCache gs (bw(f \<mapsto> ls)))"

definition checkAllActions :: "'w octokit \<Rightarrow> action list \<Rightarrow> 'w run_state \<Rightarrow> (js_error + report) \<times> 'w run_state" where
  "checkAllActions oc actions st =
     (let thirdPartyActions = filter (\<lambda>a. \<not> isFirstParty a) actions;
          firstPartyActions = filter (\<lambda>a. isFirstParty a) actions;
          uniqueFirstPartyActions = uniqueByUses firstPartyActions;
          uniqueActions = uniqueByUses thirdPartyActions
      in case firstPartyLoop uniqueFirstPartyActions [] [] of
        (cache1, firstParty) \<Rightarrow>
          (case thirdPartyLoop oc uniqueActions cache1 [] [] st of
             (Inl e, st1) \<Rightarrow> (Inl e, st1)
           | (Inr (cache2, mutableL, immutableL), st1) \<Rightarrow>
               (case groupByWorkflow actions [] of
                  Inl e \<Rightarrow> (Inl e, st1)
                | Inr actionsByWorkflow \<Rightarrow>
                    (case workflowLoop cache2 actionsByWorkflow Map.empty of
                       Inl e \<Rightarrow> (Inl e, st1)
                     | Inr bw \<Rightarrow>
                         (Inr \<lparr>mutable_actions = mutableL, immutable_actions = immutableL,
                               firstParty_actions = firstParty, byWorkflow = bw\<rparr>, st1)))))"

section \<open>Extracting the actions of a workflow file\<close>

text \<open>
  A workflow file as \<^verbatim>\<open>extractActionsFromWorkflow\<close> sees it after reading and parsing:
  either something in the \<^verbatim>\<open>try\<close> block threw (the file cannot be read, is not YAML, or
  has steps that cannot be iterated), or there are jobs, in the order \<^verbatim>\<open>Object.entries\<close>
  lists them, each with its steps. A step that lacks \<open>uses\<close> or \<open>name\<close> has
  \<^const>\<open>JUndefined\<close> there.
\<close>

record step =
  step_uses :: js_value
  step_name :: js_value

datatype document = Unreadable js_error | Workflow "(string \<times> step list) list"

record workflow_file =
  path :: string
  content :: document

text \<open>\<^verbatim>\<open>path.basename\<close> on a POSIX path: the last segment, trailing separators dropped.\<close>

definition basename :: "string \<Rightarrow> string" where
  "basename p = rev (takeWhile (\<lambda>c. c \<noteq> CHR ''/'') (dropWhile (\<lambda>c. c = CHR ''/'') (rev p)))"

text \<open>The string a value is; applied only where parsing has succeeded, which only a string does.\<close>

fun asString :: "js_value \<Rightarrow> string" where
  "asString (JString s) = s"
| "asString v = []"

fun extractSteps :: "string \<Rightarrow> string \<Rightarrow> step list \<Rightarrow> action list \<Rightarrow> js_error + action list" where
  "extractSteps file jn [] actions = Inr actions"
| "extractSteps file jn (s # ss) actions =
     (if truthy (step_uses s)
      then case parseActionReference (step_uses s) of
             Inl e \<Rightarrow> Inl e
           | Inr None \<Rightarrow> extractSteps file jn ss actions
           | Inr (Some parsed) \<Rightarrow>
               extractSteps file jn ss
                 (actions @ [\<lparr>owner = owner parsed, repo = repo parsed, ref = ref parsed,
                               uses = asString (step_uses s),
                               isFirstParty = shouldExcludeAction (owner parsed),
                               workflowFile = file, jobName = jn,
                               stepName = (if truthy (step_name s) then step_name s
                                           else JString ''unnamed step'')\<rparr>])
      else extractSteps file jn ss actions)"

fun extractJobs :: "string \<Rightarrow> (string \<times> step list) list \<Rightarrow> action list \<Rightarrow> js_error + action list" where
  "extractJobs file [] actions = Inr actions"
| "extractJobs file ((jn, steps) # jobs) actions =
     (case extractSteps file jn steps actions of
        Inl e \<Rightarrow> Inl e
      | Inr actions' \<Rightarrow> extractJobs file jobs actions')"

definition extractActionsFromWorkflow :: "workflow_file \<Rightarrow> 'w run_state \<Rightarrow> action list \<times> 'w run_state" where
  "extractActionsFromWorkflow w st =
     (case (case content w of
              Unreadable e \<Rightarrow> Inl e
            | Workflow jobs \<Rightarrow> extractJobs (basename (path w)) jobs []) of
        Inr actions \<Rightarrow> (actions, st)
      | Inl e \<Rightarrow>
          ([], warning (''Failed to parse workflow '' @ path w @ '': '' @ template (err_message e)) st))"

section \<open>The run\<close>

text \<open>
  What a run reads from its surroundings: the inputs as \<^verbatim>\<open>core.getInput\<close> returns them,
  the environment variables, and the workflow files \<^verbatim>\<open>getWorkflowFiles\<close> has selected,
  each with what reading and parsing it gives. The selection itself, which reads the file
  system, is not modelled.
\<close>

record env =
  coreInput :: "string \<Rightarrow> string"
  processEnv :: "string \<rightharpoonup> string"
  workflowFiles :: "workflow_file list"

text \<open>
  Case conversion of the ASCII letters. The other characters are left as they are: none of
  them becomes a letter of the words compared below.
\<close>

definition toLowerCase :: "string \<Rightarrow> string" where
  "toLowerCase s =
     map (\<lambda>c. case map_of (zip ''ABCDEFGHIJKLMNOPQRSTUVWXYZ'' ''abcdefghijklmnopqrstuvwxyz'') c of
                 Some l \<Rightarrow> l | None \<Rightarrow> c) s"

definition toUpperCase :: "string \<Rightarrow> string" where
  "toUpperCase s =
     map (\<lambda>c. case map_of (zip ''abcdefghijklmnopqrstuvwxyz'' ''ABCDEFGHIJKLMNOPQRSTUVWXYZ'') c of
                 Some l \<Rightarrow> l | None \<Rightarrow> c) s"

definition getInput :: "env \<Rightarrow> string \<Rightarrow> string" where
  "getInput e name =
     (let v = coreInput e name
      in if v \<noteq> [] then v
         else (let envName = ''INPUT_'' @ toUpperCase (map (\<lambda>c. if c = CHR ''-'' then CHR ''_'' else c) name)
               in case processEnv e envName of
                    None \<Rightarrow> []
                  | Some x \<Rightarrow> x))"

definition getBooleanInput :: "env \<Rightarrow> string \<Rightarrow> bool" where
  "getBooleanInput e name =
     (let input = toLowerCase (getInput e name)
      in input = ''true'' \<or> input = ''1'' \<or> input = ''yes'')"

definition setOutput :: "string \<Rightarrow> output_value \<Rightarrow> 'w run_state \<Rightarrow> 'w run_state" where
  "setOutput name v st = st\<lparr>outputs := map_set (outputs st) name v\<rparr>"

definition setFailed :: "string \<Rightarrow> 'w run_state \<Rightarrow> 'w run_state" where
  "setFailed m st = st\<lparr>failed := Some m\<rparr>"

fun extractAll :: "workflow_file list \<Rightarrow> action list \<Rightarrow> 'w run_state \<Rightarrow> action list \<times> 'w run_state" where
  "extractAll [] allActions st = (allActions, st)"
| "extractAll (w # ws) allActions st =
     (case extractActionsFromWorkflow w st of
        (actions, st1) \<Rightarrow> extractAll ws (allActions @ actions) st1)"

text \<open>A number in a template literal: its decimal digits.\<close>

fun decimal :: "nat \<Rightarrow> string" where
  "decimal n = (if n < 10 then [''0123456789'' ! n] else decimal (n div 10) @ [''0123456789'' ! (n mod 10)])"

declare decimal.simps [simp del]

text \<open>
  The run, without the lines it writes to the log and to the step summary (the summary is
  written inside a \<^verbatim>\<open>try\<close> of its own whose handler swallows every error): the inputs,
  the two early exits, the aggregation, the outputs and the failure. The outer \<^verbatim>\<open>try\<close>
  turns an error of the aggregation into a failure of the run.
\<close>

definition run :: "env \<Rightarrow> 'w octokit \<Rightarrow> 'w run_state \<Rightarrow> 'w run_state" where
  "run e oc st =
     (let githubToken = getInput e ''github-token'';
          failOnMutable = getBooleanInput e ''fail-on-mutable''
      in if githubToken = []
         then setFailed ''github-token is required (defaults to github.token)'' st
         else if length (workflowFiles e) = 0
         then setOutput ''immutable-actions'' (OutText ''[]'')
                (setOutput ''mutable-actions'' (OutText ''[]'')
                (setOutput ''workflows-checked'' (OutText ''[]'')
                (setOutput ''all-passed'' (OutBool True) st)))
         else
           (let workflowBasenames = map (\<lambda>w. basename (path w)) (workflowFiles e)
            in case extractAll (workflowFiles e) [] st of
              (allActions, st1) \<Rightarrow>
                if length allActions = 0
                then setOutput ''immutable-actions'' (OutText ''[]'')
                       (setOutput ''mutable-actions'' (OutText ''[]'')
                       (setOutput ''workflows-checked'' (OutNames workflowBasenames)
                       (setOutput ''all-passed'' (OutBool True) st1)))
                else
                  (case checkAllActions oc allActions st1 of
                     (Inl err, st2) \<Rightarrow>
                       setFailed (''Action failed with error: '' @ template (err_message err)) st2
                   | (Inr rep, st2) \<Rightarrow>
                       (let st3 = setOutput ''all-passed'' (OutBool (length (mutable_actions rep) = 0))
                                    (setOutput ''first-party-actions'' (OutJson (firstParty_actions rep))
                                    (setOutput ''immutable-actions'' (OutJson (immutable_actions rep))
                                    (setOutput ''mutable-actions'' (OutJson (mutable_actions rep))
                                    (setOutput ''workflows-checked'' (OutNames workflowBasenames) st2))))
                        in if failOnMutable \<and> length (mutable_actions rep) > 0
                           then setFailed (''Found '' @ decimal (length (mutable_actions rep))
                                             @ '' action(s) using mutable releases. ''
                                             @ ''Please use immutable releases for supply chain security.'') st3
                           else st3))))"

section \<open>Auxiliary notions\<close>

text \<open>
  What is left of the pattern after the repository name: the \<open>@\<close> and the ref
  (\<open>tail_ref\<close>), and before it the repository name with the optional path
  (\<open>repo_part\<close>). They are the closed forms that the backtracking search is shown to
  compute.
\<close>

definition tail_ref :: "string \<Rightarrow> string \<Rightarrow> string \<Rightarrow> reference option" where
  "tail_ref g1 g2 s4 =
     (case s4 of [] \<Rightarrow> None
      | c # g3 \<Rightarrow> if c = CHR ''@'' \<and> g3 \<noteq> [] \<and> (\<forall>x\<in>set g3. rx_dot x)
                  then Some \<lparr>owner = g1, repo = g2, ref = g3\<rparr> else None)"

definition repo_part :: "string \<Rightarrow> string \<Rightarrow> reference option" where
  "repo_part g1 s2 =
     (let g2 = takeWhile (\<lambda>c. c \<noteq> CHR ''/'' \<and> c \<noteq> CHR ''@'') s2;
          s3 = dropWhile (\<lambda>c. c \<noteq> CHR ''/'' \<and> c \<noteq> CHR ''@'') s2
      in if g2 = [] then None
         else case s3 of [] \<Rightarrow> None
              | c # t \<Rightarrow> if c = CHR ''/'' then tail_ref g1 g2 (dropWhile (\<lambda>c. c \<noteq> CHR ''@'') t)
                         else tail_ref g1 g2 s3)"

text \<open>The words of the specification for the ref: everything after the first \<open>@\<close>.\<close>

definition afterFirstAt :: "string \<Rightarrow> string" where
  "afterFirstAt s = tl (dropWhile (\<lambda>c. c \<noteq> CHR ''@'') s)"

text \<open>A state to start a run from: nothing requested, nothing written.\<close>

definition st0 :: "unit run_state" where
  "st0 = \<lparr>world = (), requests = [], infos = [], warnings = [], outputs = [], failed = None\<rparr>"

text \<open>The keys of a list in the order of their first occurrence, each once.\<close>

definition firstOccurrences :: "'k list \<Rightarrow> 'k list" where
  "firstOccurrences xs = rev (remdups (rev xs))"

text \<open>
  The entries the loops of \<^const>\<open>checkAllActions\<close> build, the lists they iterate over,
  whether the resolver returns for each action of a list in turn (\<open>resolves\<close>), the
  results it returns and the state it leaves (\<open>resolutions\<close> and \<open>afterResolutions\<close>,
  which say what the loop has done where \<open>resolves\<close> holds), the cache when the two loops
  are done, and the lists of one workflow file. A response is \<open>nullish\<close> when it is a thrown
  null or undefined.
\<close>

definition firstPartyOutcome :: outcome where
  "firstPartyOutcome = \<lparr>immutable = True, releaseFound = False, message = ''First-party action''\<rparr>"

definition firstPartyInfo :: "action \<Rightarrow> actionInfo" where
  "firstPartyInfo a = \<lparr>owner = owner a, repo = repo a, ref = ref a, uses = uses a, isFirstParty = True,
                        result = Some firstPartyOutcome, inWorkflow = None\<rparr>"

definition thirdPartyInfo :: "action \<times> outcome \<Rightarrow> actionInfo" where
  "thirdPartyInfo ar = \<lparr>owner = owner (fst ar), repo = repo (fst ar), ref = ref (fst ar), uses = uses (fst ar),
                         isFirstParty = False, result = Some (snd ar), inWorkflow = None\<rparr>"

definition fileInfo :: "cache \<Rightarrow> action \<Rightarrow> actionInfo" where
  "fileInfo c a = \<lparr>owner = owner a, repo = repo a, ref = ref a, uses = uses a,
                    isFirstParty = isFirstParty a, result = map_get c (uses a),
                    inWorkflow = Some (workflowFile a)\<rparr>"

definition cachedImmutable :: "cache \<Rightarrow> action \<Rightarrow> bool" where
  "cachedImmutable c a = (case map_get c (uses a) of Some r \<Rightarrow> immutable r | None \<Rightarrow> False)"

definition nullish :: "response \<Rightarrow> bool" where
  "nullish resp \<longleftrightarrow> resp = Thrown ThrownNull \<or> resp = Thrown ThrownUndefined"

fun resolves :: "'w octokit \<Rightarrow> action list \<Rightarrow> 'w run_state \<Rightarrow> bool" where
  "resolves oc [] st = True"
| "resolves oc (a # as) st =
     (case checkReleaseImmutability oc (owner a) (repo a) (ref a) (info (checkingLine a) st) of
        (Inr res, st1) \<Rightarrow> resolves oc as st1
      | (Inl e, st1) \<Rightarrow> False)"

fun resolutions :: "'w octokit \<Rightarrow> action list \<Rightarrow> 'w run_state \<Rightarrow> outcome list" where
  "resolutions oc [] st = []"
| "resolutions oc (a # as) st =
     projr (fst (checkReleaseImmutability oc (owner a) (repo a) (ref a) (info (checkingLine a) st)))
       # resolutions oc as (snd (checkReleaseImmutability oc (owner a) (repo a) (ref a) (info (checkingLine a) st)))"

fun afterResolutions :: "'w octokit \<Rightarrow> action list \<Rightarrow> 'w run_state \<Rightarrow> 'w run_state" where
  "afterResolutions oc [] st = st"
| "afterResolutions oc (a # as) st =
     afterResolutions oc as (snd (checkReleaseImmutability oc (owner a) (repo a) (ref a) (info (checkingLine a) st)))"

definition fileLists :: "cache \<Rightarrow> action list \<Rightarrow> lists" where
  "fileLists c as =
     \<lparr>mutable_actions = map (fileInfo c) (filter (\<lambda>a. \<not> isFirstParty a \<and> \<not> cachedImmutable c a) as),
      immutable_actions = map (fileInfo c) (filter (\<lambda>a. \<not> isFirstParty a \<and> cachedImmutable c a) as),
      firstParty_actions = map (fileInfo c) (filter (\<lambda>a. isFirstParty a) as)\<rparr>"

definition thirdPartyUnique :: "action list \<Rightarrow> action list" where
  "thirdPartyUnique actions = uniqueByUses (filter (\<lambda>a. \<not> isFirstParty a) actions)"

definition firstPartyUnique :: "action list \<Rightarrow> action list" where
  "firstPartyUnique actions = uniqueByUses (filter (\<lambda>a. isFirstParty a) actions)"

definition resolved :: "'w octokit \<Rightarrow> action list \<Rightarrow> 'w run_state \<Rightarrow> (action \<times> outcome) list" where
  "resolved oc actions st = zip (thirdPartyUnique actions) (resolutions oc (thirdPartyUnique actions) st)"

definition finalCache :: "'w octokit \<Rightarrow> action list \<Rightarrow> 'w run_state \<Rightarrow> cache" where
  "finalCache oc actions st =
     foldl (\<lambda>m (k, v). map_set m k v)
       (foldl (\<lambda>m (k, v). map_set m k v) [] (map (\<lambda>a. (uses a, firstPartyOutcome)) (firstPartyUnique actions)))
       (map (\<lambda>(a, r). (uses a, r)) (resolved oc actions st))"

definition fileReport :: "'w octokit \<Rightarrow> action list \<Rightarrow> 'w run_state \<Rightarrow> string \<rightharpoonup> lists" where
  "fileReport oc actions st f =
     (if f \<in> workflowFile ` set actions
      then Some (fileLists (finalCache oc actions st) (uniqueByUses (filter (\<lambda>a. workflowFile a = f) actions)))
      else None)"

text \<open>
  An entry as \<^const>\<open>extractSteps\<close> builds it: owner, repository name and ref are what
  parsing its \<open>uses\<close> string gives, and the first-party flag is the exempt-owner check of
  its owner.
\<close>

definition asExtracted :: "action \<Rightarrow> bool" where
  "asExtracted a \<longleftrightarrow>
     parseActionReference (JString (uses a)) = Inr (Some \<lparr>owner = owner a, repo = repo a, ref = ref a\<rparr>)
     \<and> isFirstParty a = shouldExcludeAction (owner a)"

text \<open>Whether the result spread into an entry of the report says immutable.\<close>

definition entryImmutable :: "actionInfo \<Rightarrow> bool" where
  "entryImmutable e = (case result e of Some r \<Rightarrow> immutable r | None \<Rightarrow> False)"

text \<open>
  Inputs for the examples: one reference to \<open>owner/repo@v1\<close> in two steps of \<open>ci.yml\<close>
  and in \<open>deploy.yml\<close>, a first-party reference, and a remote service without releases.
\<close>

definition refV1 :: action where
  "refV1 = \<lparr>owner = ''owner'', repo = ''repo'', ref = ''v1'', uses = ''owner/repo@v1'', isFirstParty = False,
            workflowFile = ''ci.yml'', jobName = ''build'', stepName = JString ''first''\<rparr>"

definition refV1_again :: action where
  "refV1_again = \<lparr>owner = ''owner'', repo = ''repo'', ref = ''v1'', uses = ''owner/repo@v1'', isFirstParty = False,
            workflowFile = ''ci.yml'', jobName = ''build'', stepName = JString ''second''\<rparr>"

definition checkout :: action where
  "checkout = \<lparr>owner = ''actions'', repo = ''checkout'', ref = ''v4'', uses = ''actions/checkout@v4'', isFirstParty = True,
            workflowFile = ''ci.yml'', jobName = ''build'', stepName = JString ''unnamed step''\<rparr>"

definition refV1_deploy :: action where
  "refV1_deploy = \<lparr>owner = ''owner'', repo = ''repo'', ref = ''v1'', uses = ''owner/repo@v1'', isFirstParty = False,
            workflowFile = ''deploy.yml'', jobName = ''deploy'', stepName = JString ''unnamed step''\<rparr>"

text \<open>The same reference in a workflow file named \<open>constructor\<close>.\<close>

definition refV1_constructor :: action where
  "refV1_constructor = \<lparr>owner = ''owner'', repo = ''repo'', ref = ''v1'', uses = ''owner/repo@v1'', isFirstParty = False,
            workflowFile = ''constructor'', jobName = ''build'', stepName = JString ''first''\<rparr>"

definition notFound :: "unit octokit" where
  "notFound w rq = (Thrown (ThrownValue (JsError (Some 404) (Some ''Not Found''))), w)"

text \<open>A remote service whose requests throw null.\<close>

definition throwsNull :: "unit octokit" where
  "throwsNull w rq = (Thrown ThrownNull, w)"

text \<open>
  A remote service that fails on every request, and a run with a token, the policy flag
  set, and one workflow file of two steps.
\<close>

definition serverError :: "unit octokit" where
  "serverError w rq = (Thrown (ThrownValue (JsError (Some 500) (Some ''Server Error''))), w)"

text \<open>
  A remote service where every release is immutable, and a run with a token, the policy
  flag off, and one workflow file, named \<open>constructor\<close>, of one step.
\<close>

definition immutableRelease :: "unit octokit" where
  "immutableRelease w rq = (Release (JBool True), w)"

definition envConstructor :: env where
  "envConstructor = \<lparr>coreInput = (\<lambda>n. if n = ''github-token'' then ''token''
                          else if n = ''fail-on-mutable'' then ''false'' else []),
            processEnv = Map.empty,
            workflowFiles =
              [\<lparr>path = ''/repo/.github/workflows/constructor'',
                content = Workflow [(''build'',
                  [\<lparr>step_uses = JString ''owner/repo@v1'', step_name = JString ''first''\<rparr>])]\<rparr>]\<rparr>"

definition env1 :: env where
  "env1 = \<lparr>coreInput = (\<lambda>n. if n = ''github-token'' then ''token''
                          else if n = ''fail-on-mutable'' then ''true'' else []),
            processEnv = Map.empty,
            workflowFiles =
              [\<lparr>path = ''/repo/.github/workflows/ci.yml'',
                content = Workflow [(''build'',
                  [\<lparr>step_uses = JString ''actions/checkout@v4'', step_name = JUndefined\<rparr>,
                   \<lparr>step_uses = JString ''owner/repo@v1'', step_name = JString ''first''\<rparr>])]\<rparr>]\<rparr>"

section \<open>The patterns in closed form\<close>

text \<open>
  A greedy repetition followed by something that fails on every character of the class
  never backtracks: it takes the whole run.
\<close>

lemma rx_star_greedy:
  assumes "\<And>a c cs. p c \<Longrightarrow> k a (c # cs) = None"
  shows "rx_star p acc s k = k (acc @ takeWhile p s) (dropWhile p s)"
proof (induction s arbitrary: acc)
  case Nil
  show ?case by simp
next
  case (Cons c cs)
  show ?case
  proof (cases "p c")
    case True
    then show ?thesis
      using Cons.IH [of "acc @ [c]"] assms [of c acc cs]
      by (cases "k (acc @ c # takeWhile p cs) (dropWhile p cs)") simp_all
  next
    case False
    then show ?thesis by simp
  qed
qed

lemma rx_plus_greedy:
  assumes "\<And>a c cs. p c \<Longrightarrow> k a (c # cs) = None"
  shows "rx_plus p s k = (if takeWhile p s = [] then None else k (takeWhile p s) (dropWhile p s))"
proof (cases s)
  case Nil
  then show ?thesis by (simp add: rx_plus_def)
next
  case (Cons c cs)
  then show ?thesis
    using rx_star_greedy [of p k "[c]" cs, OF assms]
    by (simp add: rx_plus_def)
qed

lemma tail_eq:
  "rx_lit CHR ''@'' s4 (\<lambda>s5. rx_plus rx_dot s5 (\<lambda>g3 s6. rx_end s6 \<lparr>owner = g1, repo = g2, ref = g3\<rparr>))
   = tail_ref g1 g2 s4"
proof (cases s4)
  case Nil
  then show ?thesis by (simp add: rx_lit_def tail_ref_def)
next
  case (Cons c g3)
  have *: "rx_plus rx_dot g3 (\<lambda>g3 s6. rx_end s6 \<lparr>owner = g1, repo = g2, ref = g3\<rparr>)
        = (if g3 \<noteq> [] \<and> (\<forall>x\<in>set g3. rx_dot x) then Some \<lparr>owner = g1, repo = g2, ref = g3\<rparr> else None)"
  proof (cases g3)
    case Nil
    then show ?thesis by (simp add: rx_plus_def)
  next
    case (Cons x xs)
    show ?thesis
      by (subst rx_plus_greedy) (auto simp: Cons rx_end_def dropWhile_eq_Nil_conv)
  qed
  show ?thesis using Cons * by (simp add: rx_lit_def tail_ref_def)
qed

lemma group_eq:
  "rx_opt (\<lambda>t k. rx_lit CHR ''/'' t (\<lambda>t1. rx_star (\<lambda>c. c \<noteq> CHR ''@'') [] t1 (\<lambda>sub. k))) s3 (tail_ref g1 g2)
   = (case s3 of [] \<Rightarrow> None
      | c # t \<Rightarrow> if c = CHR ''/'' then tail_ref g1 g2 (dropWhile (\<lambda>c. c \<noteq> CHR ''@'') t)
                 else tail_ref g1 g2 s3)"
proof (cases s3)
  case Nil
  then show ?thesis by (simp add: rx_opt_def rx_lit_def tail_ref_def)
next
  case (Cons c t)
  have star: "rx_star (\<lambda>c. c \<noteq> CHR ''@'') [] t (\<lambda>sub. tail_ref g1 g2)
                = tail_ref g1 g2 (dropWhile (\<lambda>c. c \<noteq> CHR ''@'') t)"
    by (subst rx_star_greedy) (simp_all add: tail_ref_def)
  show ?thesis
  proof (cases "c = CHR ''/''")
    case True
    then show ?thesis using Cons star
      by (simp add: rx_opt_def rx_lit_def tail_ref_def split: option.splits)
  next
    case False
    then show ?thesis using Cons
      by (simp add: rx_opt_def rx_lit_def)
  qed
qed

lemma inner_eq: "rx_plus (\<lambda>c. c \<noteq> CHR ''/'' \<and> c \<noteq> CHR ''@'') s2 (\<lambda>g2 s3.
     rx_opt (\<lambda>t k. rx_lit CHR ''/'' t (\<lambda>t1. rx_star (\<lambda>c. c \<noteq> CHR ''@'') [] t1 (\<lambda>sub. k))) s3 (\<lambda>s4.
     rx_lit CHR ''@'' s4 (\<lambda>s5.
     rx_plus rx_dot s5 (\<lambda>g3 s6.
     rx_end s6 \<lparr>owner = g1, repo = g2, ref = g3\<rparr>)))) = repo_part g1 s2"
proof -
  let ?p = "\<lambda>c. c \<noteq> CHR ''/'' \<and> c \<noteq> CHR ''@''"
  let ?k = "\<lambda>g2 s3. case s3 of [] \<Rightarrow> None
      | c # t \<Rightarrow> if c = CHR ''/'' then tail_ref g1 g2 (dropWhile (\<lambda>c. c \<noteq> CHR ''@'') t)
                 else tail_ref g1 g2 s3"
  have "rx_plus ?p s2 ?k = (if takeWhile ?p s2 = [] then None else ?k (takeWhile ?p s2) (dropWhile ?p s2))"
    by (rule rx_plus_greedy) (simp add: tail_ref_def)
  then show ?thesis
    unfolding tail_eq group_eq by (simp add: repo_part_def Let_def)
qed

lemma actionPattern_eq:
  "actionPattern s =
     (let g1 = takeWhile (\<lambda>c. c \<noteq> CHR ''/'') s
      in if g1 = [] then None
         else case dropWhile (\<lambda>c. c \<noteq> CHR ''/'') s of [] \<Rightarrow> None | c # s2 \<Rightarrow> repo_part g1 s2)"
proof -
  let ?p = "\<lambda>c. c \<noteq> CHR ''/''"
  let ?k = "\<lambda>g1 s1. rx_lit CHR ''/'' s1 (repo_part g1)"
  have outer: "actionPattern s = rx_plus ?p s ?k"
    unfolding actionPattern_def inner_eq ..
  have greedy: "rx_plus ?p s ?k = (if takeWhile ?p s = [] then None else ?k (takeWhile ?p s) (dropWhile ?p s))"
    by (rule rx_plus_greedy) (simp add: rx_lit_def)
  show ?thesis
  proof (cases "dropWhile ?p s")
    case Nil
    show ?thesis
      unfolding outer greedy Nil by (simp add: Let_def rx_lit_def)
  next
    case (Cons c s2)
    then have "c = CHR ''/''"
      using hd_dropWhile [of ?p s] by simp
    then show ?thesis
      unfolding outer greedy Cons by (simp add: Let_def rx_lit_def)
  qed
qed

lemma rx_count_eq:
  "rx_count n p s k = (if n \<le> length s \<and> (\<forall>c\<in>set (take n s). p c) then k (drop n s) else None)"
proof (induction n arbitrary: s)
  case 0
  show ?case by simp
next
  case (Suc n)
  show ?case
  proof (cases s)
    case Nil
    then show ?thesis by simp
  next
    case (Cons c cs)
    then show ?thesis using Suc.IH [of cs] by simp
  qed
qed

lemma isFullSHA_iff:
  "isFullSHA r \<longleftrightarrow> length r = 40 \<and> (\<forall>c\<in>set r. hexClass c)"
  unfolding isFullSHA_def rx_count_eq rx_end_def by auto

lemma hexClass_iff: "hexClass c \<longleftrightarrow> c \<in> set ''0123456789abcdefABCDEF''"
  unfolding hexClass_def by auto

lemma includes_str_iff: "includes_str s p \<longleftrightarrow> (\<exists>ys zs. s = ys @ p @ zs)"
proof (induction s)
  case Nil
  show ?case by auto
next
  case (Cons c cs)
  show ?case
  proof
    assume "includes_str (c # cs) p"
    then consider "take (length p) (c # cs) = p" | "includes_str cs p" by auto
    then show "\<exists>ys zs. c # cs = ys @ p @ zs"
    proof cases
      case 1
      then have "c # cs = [] @ p @ drop (length p) (c # cs)"
        by (metis append_Nil append_take_drop_id)
      then show ?thesis by blast
    next
      case 2
      then obtain ys zs where "cs = ys @ p @ zs" using Cons.IH by blast
      then have "c # cs = (c # ys) @ p @ zs" by simp
      then show ?thesis by blast
    qed
  next
    assume "\<exists>ys zs. c # cs = ys @ p @ zs"
    then obtain ys zs where eq: "c # cs = ys @ p @ zs" by blast
    show "includes_str (c # cs) p"
    proof (cases ys)
      case Nil
      then have "take (length p) (c # cs) = p" using eq by simp
      then show ?thesis by simp
    next
      case (Cons y ys')
      then have "cs = ys' @ p @ zs" using eq by simp
      then have "includes_str cs p" using Cons.IH by blast
      then show ?thesis by simp
    qed
  qed
qed


lemma takeWhile_stop: "\<forall>x\<in>set xs. P x \<Longrightarrow> \<not> P y \<Longrightarrow> takeWhile P (xs @ y # ys) = xs"
  by (induction xs) auto

lemma dropWhile_stop: "\<forall>x\<in>set xs. P x \<Longrightarrow> \<not> P y \<Longrightarrow> dropWhile P (xs @ y # ys) = y # ys"
  by (induction xs) auto

lemma tail_ref_Some:
  "tail_ref g1 g2 s4 = Some r \<longleftrightarrow>
     (\<exists>g3. s4 = CHR ''@'' # g3 \<and> g3 \<noteq> [] \<and> (\<forall>x\<in>set g3. rx_dot x) \<and> r = \<lparr>owner = g1, repo = g2, ref = g3\<rparr>)"
  by (cases s4) (auto simp: tail_ref_def)

lemma actionPattern_Some:
  "actionPattern s = Some r \<longleftrightarrow>
     (\<exists>sub. s = owner r @ ''/'' @ repo r @ sub @ ''@'' @ ref r
        \<and> owner r \<noteq> [] \<and> CHR ''/'' \<notin> set (owner r)
        \<and> repo r \<noteq> [] \<and> CHR ''/'' \<notin> set (repo r) \<and> CHR ''@'' \<notin> set (repo r)
        \<and> (sub = [] \<or> hd sub = CHR ''/'') \<and> CHR ''@'' \<notin> set sub
        \<and> ref r \<noteq> [] \<and> CHR 0x0A \<notin> set (ref r) \<and> CHR 0x0D \<notin> set (ref r))"
  (is "?L \<longleftrightarrow> ?R")
proof
  let ?p1 = "\<lambda>c. c \<noteq> CHR ''/''"
  let ?p2 = "\<lambda>c. c \<noteq> CHR ''/'' \<and> c \<noteq> CHR ''@''"
  let ?p3 = "\<lambda>c. c \<noteq> CHR ''@''"
  assume L: ?L
  define g1 where "g1 = takeWhile ?p1 s"
  have g1: "g1 \<noteq> []" using L unfolding actionPattern_eq g1_def by (auto simp: Let_def split: if_splits)
  obtain c1 s2 where s1: "dropWhile ?p1 s = c1 # s2" and rp: "repo_part g1 s2 = Some r"
    using L g1 unfolding actionPattern_eq g1_def by (auto simp: Let_def split: if_splits list.splits)
  have c1: "c1 = CHR ''/''" using hd_dropWhile [of ?p1 s] s1 by simp
  have s_eq: "s = g1 @ CHR ''/'' # s2"
    using takeWhile_dropWhile_id [of ?p1 s] s1 c1 g1_def by simp
  have g1_set: "CHR ''/'' \<notin> set g1" unfolding g1_def by (auto dest: set_takeWhileD)
  define g2 where "g2 = takeWhile ?p2 s2"
  have g2: "g2 \<noteq> []" using rp unfolding repo_part_def g2_def by (auto simp: Let_def split: if_splits)
  obtain c t where s3: "dropWhile ?p2 s2 = c # t"
    and tl: "(if c = CHR ''/'' then tail_ref g1 g2 (dropWhile ?p3 t) else tail_ref g1 g2 (c # t)) = Some r"
    using rp g2 unfolding repo_part_def g2_def by (auto simp: Let_def split: if_splits list.splits)
  have s2_eq: "s2 = g2 @ c # t"
    using takeWhile_dropWhile_id [of ?p2 s2] s3 g2_def by simp
  have g2_set: "CHR ''/'' \<notin> set g2 \<and> CHR ''@'' \<notin> set g2" unfolding g2_def by (auto dest: set_takeWhileD)
  show ?R
  proof (cases "c = CHR ''/''")
    case True
    then obtain g3 where d: "dropWhile ?p3 t = CHR ''@'' # g3" and g3: "g3 \<noteq> []" "\<forall>x\<in>set g3. rx_dot x"
      and r: "r = \<lparr>owner = g1, repo = g2, ref = g3\<rparr>"
      using tl by (auto simp: tail_ref_Some)
    define sub where "sub = CHR ''/'' # takeWhile ?p3 t"
    have "t = takeWhile ?p3 t @ CHR ''@'' # g3"
      using takeWhile_dropWhile_id [of ?p3 t] d by simp
    then have "s = owner r @ ''/'' @ repo r @ sub @ ''@'' @ ref r"
      using s_eq s2_eq True r sub_def by simp
    moreover have "hd sub = CHR ''/''" "CHR ''@'' \<notin> set sub"
      unfolding sub_def by (auto dest: set_takeWhileD)
    ultimately show ?thesis
      using g1 g1_set g2 g2_set g3 r by (auto simp: rx_dot_def)
  next
    case False
    then obtain g3 where d: "c # t = CHR ''@'' # g3" and g3: "g3 \<noteq> []" "\<forall>x\<in>set g3. rx_dot x"
      and r: "r = \<lparr>owner = g1, repo = g2, ref = g3\<rparr>"
      using tl by (auto simp: tail_ref_Some)
    have "s = owner r @ ''/'' @ repo r @ [] @ ''@'' @ ref r"
      using s_eq s2_eq d r by simp
    then show ?thesis
      using g1 g1_set g2 g2_set g3 r by (intro exI [of _ "[]"]) (auto simp: rx_dot_def)
  qed
next
  let ?p1 = "\<lambda>c. c \<noteq> CHR ''/''"
  let ?p2 = "\<lambda>c. c \<noteq> CHR ''/'' \<and> c \<noteq> CHR ''@''"
  let ?p3 = "\<lambda>c. c \<noteq> CHR ''@''"
  assume ?R
  then obtain sub where s: "s = owner r @ CHR ''/'' # repo r @ sub @ CHR ''@'' # ref r"
    and ow: "owner r \<noteq> []" "CHR ''/'' \<notin> set (owner r)"
    and rp: "repo r \<noteq> []" "CHR ''/'' \<notin> set (repo r)" "CHR ''@'' \<notin> set (repo r)"
    and sub: "sub = [] \<or> hd sub = CHR ''/''" "CHR ''@'' \<notin> set sub"
    and rf: "ref r \<noteq> []" "CHR 0x0A \<notin> set (ref r)" "CHR 0x0D \<notin> set (ref r)"
    by auto
  have t1: "takeWhile ?p1 s = owner r" and d1: "dropWhile ?p1 s = CHR ''/'' # repo r @ sub @ CHR ''@'' # ref r"
    unfolding s using ow by (auto intro!: takeWhile_stop dropWhile_stop)
  have dots: "\<forall>x\<in>set (ref r). rx_dot x" using rf by (auto simp: rx_dot_def)
  have r_eq: "\<lparr>owner = owner r, repo = repo r, ref = ref r\<rparr> = r" by simp
  have "repo_part (owner r) (repo r @ sub @ CHR ''@'' # ref r) = Some r"
  proof (cases sub)
    case Nil
    have "takeWhile ?p2 (repo r @ CHR ''@'' # ref r) = repo r"
      and "dropWhile ?p2 (repo r @ CHR ''@'' # ref r) = CHR ''@'' # ref r"
      using rp by (auto intro!: takeWhile_stop dropWhile_stop)
    then show ?thesis
      using Nil rp rf dots r_eq by (simp add: repo_part_def tail_ref_def)
  next
    case (Cons c sub')
    then have c: "c = CHR ''/''" using sub by simp
    have "takeWhile ?p2 (repo r @ CHR ''/'' # sub' @ CHR ''@'' # ref r) = repo r"
      and "dropWhile ?p2 (repo r @ CHR ''/'' # sub' @ CHR ''@'' # ref r) = CHR ''/'' # sub' @ CHR ''@'' # ref r"
      using rp by (auto intro!: takeWhile_stop dropWhile_stop)
    moreover have "dropWhile ?p3 (sub' @ CHR ''@'' # ref r) = CHR ''@'' # ref r"
      using sub Cons by (auto intro!: dropWhile_stop)
    ultimately show ?thesis
      using Cons c rp rf dots r_eq by (simp add: repo_part_def tail_ref_def)
  qed
  then show ?L
    unfolding actionPattern_eq t1 d1 using ow by simp
qed

lemma parseActionReference_string:
  "parseActionReference (JString s) =
     (if s = [] \<or> take 2 s = ''./'' \<or> includes_str s ''://'' then Inr None else Inr (actionPattern s))"
  by (simp add: parseActionReference_def numeral_2_eq_2 split: bool.splits)

lemma take2_iff: "take 2 s = ''./'' \<longleftrightarrow> (\<exists>zs. s = ''./'' @ zs)"
proof
  assume "take 2 s = ''./''"
  then have "s = ''./'' @ drop 2 s" by (metis append_take_drop_id)
  then show "\<exists>zs. s = ''./'' @ zs" ..
next
  assume "\<exists>zs. s = ''./'' @ zs"
  then show "take 2 s = ''./''" by auto
qed

section \<open>Parsing: what is accepted, and what comes out\<close>

text \<open>
  C4, as amended. A \<open>uses\<close> string whose characters are all below U+0100 yields a
  reference exactly when it does not start with \<open>./\<close>, does not contain \<open>://\<close>, and reads
  \<open>owner/repo[sub]@ref\<close> where the owner is non-empty and has no \<open>/\<close> (it may hold an
  \<open>@\<close>), the repository name is non-empty and has neither \<open>/\<close> nor \<open>@\<close>, the optional
  part \<open>sub\<close> starts with \<open>/\<close> and has no \<open>@\<close>, and the ref is non-empty and has no
  line feed and no carriage return, the two line terminators such a string can hold. The
  reference is then exactly that owner, repository name and ref: the path is dropped, and
  the ref is what follows the first \<open>@\<close> after the repository name.
\<close>

theorem parseActionReference_shape:
  "parseActionReference (JString s) = Inr (Some r) \<longleftrightarrow>
     \<not> (\<exists>zs. s = ''./'' @ zs) \<and> \<not> (\<exists>ys zs. s = ys @ ''://'' @ zs) \<and>
     (\<exists>sub. s = owner r @ ''/'' @ repo r @ sub @ ''@'' @ ref r
        \<and> owner r \<noteq> [] \<and> CHR ''/'' \<notin> set (owner r)
        \<and> repo r \<noteq> [] \<and> CHR ''/'' \<notin> set (repo r) \<and> CHR ''@'' \<notin> set (repo r)
        \<and> (sub = [] \<or> hd sub = CHR ''/'') \<and> CHR ''@'' \<notin> set sub
        \<and> ref r \<noteq> [] \<and> CHR 0x0A \<notin> set (ref r) \<and> CHR 0x0D \<notin> set (ref r))"
proof -
  have "s \<noteq> []" if "actionPattern s = Some r"
    using that unfolding actionPattern_Some by auto
  then show ?thesis
    unfolding parseActionReference_string take2_iff includes_str_iff actionPattern_Some [symmetric]
    by auto
qed

text \<open>The example of the specification: \<open>owner/repo/path@v1\<close>.\<close>

theorem parseActionReference_shape_witness:
  "parseActionReference (JString ''owner/repo/path@v1'')
     = Inr (Some \<lparr>owner = ''owner'', repo = ''repo'', ref = ''v1''\<rparr>)"
proof -
  let ?s = "''owner/repo/path@v1''"
  let ?r = "\<lparr>owner = ''owner'', repo = ''repo'', ref = ''v1''\<rparr>"
  have a: "\<not> (\<exists>zs. ?s = ''./'' @ zs)"
    unfolding take2_iff [symmetric] by simp
  have b: "\<not> (\<exists>ys zs. ?s = ys @ ''://'' @ zs)"
    unfolding includes_str_iff [symmetric] by simp
  have c: "\<exists>sub. ?s = owner ?r @ ''/'' @ repo ?r @ sub @ ''@'' @ ref ?r
        \<and> owner ?r \<noteq> [] \<and> CHR ''/'' \<notin> set (owner ?r)
        \<and> repo ?r \<noteq> [] \<and> CHR ''/'' \<notin> set (repo ?r) \<and> CHR ''@'' \<notin> set (repo ?r)
        \<and> (sub = [] \<or> hd sub = CHR ''/'') \<and> CHR ''@'' \<notin> set sub
        \<and> ref ?r \<noteq> [] \<and> CHR 0x0A \<notin> set (ref ?r) \<and> CHR 0x0D \<notin> set (ref ?r)"
    by (rule exI [of _ "''/path''"]) simp
  show ?thesis
    using parseActionReference_shape [of ?s ?r] a b c by blast
qed

text \<open>
  C4 as it is written fails where the owner holds an \<open>@\<close>: the reference is returned, and
  its ref is not what follows the first \<open>@\<close> of the string.
\<close>

theorem parseActionReference_at_in_owner:
  "parseActionReference (JString ''a@b/c@d'') = Inr (Some \<lparr>owner = ''a@b'', repo = ''c'', ref = ''d''\<rparr>)
   \<and> afterFirstAt ''a@b/c@d'' = ''b/c@d''"
  by (simp add: parseActionReference_string actionPattern_eq repo_part_def tail_ref_def
        rx_dot_def afterFirstAt_def numeral_2_eq_2)

text \<open>A ref that ends in a line feed, as a YAML block scalar gives it, is rejected.\<close>

lemma parseActionReference_line_feed:
  "parseActionReference (JString (''owner/repo@v1'' @ [CHR 0x0A])) = Inr None"
  by (simp add: parseActionReference_string actionPattern_eq repo_part_def tail_ref_def
        rx_dot_def numeral_2_eq_2)

text \<open>
  C10. A value that is not a string (null and undefined among them) and the empty string
  parse to null, and no value at all makes the parser throw.
\<close>

theorem parseActionReference_not_string:
  "((\<forall>s. v \<noteq> JString s) \<or> v = JString [] \<longrightarrow> parseActionReference v = Inr None)
   \<and> (\<exists>r. parseActionReference v = Inr r)"
  by (cases v) (simp_all add: parseActionReference_def split: bool.splits)

theorem parseActionReference_not_string_witness:
  "parseActionReference JNull = Inr None \<and> parseActionReference JUndefined = Inr None
   \<and> parseActionReference (JString []) = Inr None \<and> parseActionReference (JNumber 4) = Inr None"
  using parseActionReference_not_string [of JNull] parseActionReference_not_string [of JUndefined]
        parseActionReference_not_string [of "JString []"] parseActionReference_not_string [of "JNumber 4"]
  by simp

section \<open>Exempt owners\<close>

lemma shouldExcludeAction_iff:
  "shouldExcludeAction ow \<longleftrightarrow> ow \<in> {''actions'', ''github'', ''octokit''}"
  by (simp add: shouldExcludeAction_def)

lemma shouldExcludeAction_case: "\<not> shouldExcludeAction ''Actions''"
  by (simp add: shouldExcludeAction_def)

text \<open>
  C5. The exempt owners are \<open>actions\<close>, \<open>github\<close> and \<open>octokit\<close>; the copy of the check in
  \<^verbatim>\<open>src/index.js\<close> does not exempt \<open>octokit\<close>.
\<close>

theorem shouldExcludeAction_index_octokit:
  "shouldExcludeAction_index ''octokit'' = False \<and> shouldExcludeAction ''octokit'' = True"
  by (simp add: shouldExcludeAction_index_def shouldExcludeAction_def)

section \<open>The resolver\<close>

text \<open>
  C2. For a ref of forty hexadecimal digits, in either case, the resolver returns the
  full-SHA result and leaves the state as it was: the remote service has received no
  request.
\<close>

theorem checkReleaseImmutability_fullSHA:
  assumes "length r = 40" and "\<forall>c\<in>set r. c \<in> set ''0123456789abcdefABCDEF''"
  shows "checkReleaseImmutability oc ow rp r st =
           (Inr \<lparr>immutable = True, releaseFound = False, message = ''Immutable (full SHA reference)''\<rparr>, st)"
proof -
  have "isFullSHA r"
    using assms unfolding isFullSHA_iff hexClass_iff by simp
  then show ?thesis
    by (simp add: checkReleaseImmutability_def)
qed

theorem checkReleaseImmutability_fullSHA_witness:
  "length ''1234567890abcdef1234567890abcdef12345678'' = 40
   \<and> checkReleaseImmutability (\<lambda>w rq. (Release (JBool False), w)) ''owner'' ''repo''
        ''1234567890abcdef1234567890abcdef12345678'' st0
      = (Inr \<lparr>immutable = True, releaseFound = False, message = ''Immutable (full SHA reference)''\<rparr>, st0)"
proof -
  have h1: "length ''1234567890abcdef1234567890abcdef12345678'' = 40" by simp
  have h2: "\<forall>c\<in>set ''1234567890abcdef1234567890abcdef12345678''. c \<in> set ''0123456789abcdefABCDEF''" by simp
  show ?thesis
    using h1 h2 checkReleaseImmutability_fullSHA [OF h1 h2, of "\<lambda>w rq. (Release (JBool False), w)" "''owner''" "''repo''" st0]
    by simp
qed

text \<open>
  C3, as amended. The resolver returns a result exactly when the ref is a full SHA or
  what the request gives is neither a thrown null nor a thrown undefined; on those two its
  handler throws. When the request throws any other value: if that value's status is 404,
  the result is ``no release found'' and nothing is written; otherwise the result is ``API
  error'' with the text of the value's message, and one warning with that text is written.
\<close>

theorem checkReleaseImmutability_handler:
  "((\<exists>res st'. checkReleaseImmutability oc ow rp r st = (Inr res, st')) \<longleftrightarrow>
      isFullSHA r \<or> (fst (oc (world st) (ow, rp, r)) \<noteq> Thrown ThrownNull
                     \<and> fst (oc (world st) (ow, rp, r)) \<noteq> Thrown ThrownUndefined)) \<and>
   (\<not> isFullSHA r \<longrightarrow>
      (\<forall>e w. oc (world st) (ow, rp, r) = (Thrown (ThrownValue e), w) \<longrightarrow>
         (if err_status e = Some 404
          then checkReleaseImmutability oc ow rp r st =
                 (Inr \<lparr>immutable = False, releaseFound = False,
                       message = ''No release found for this reference''\<rparr>,
                  st\<lparr>world := w, requests := requests st @ [(ow, rp, r)]\<rparr>)
          else checkReleaseImmutability oc ow rp r st =
                 (Inr \<lparr>immutable = False, releaseFound = False,
                       message = ''API error: '' @ template (err_message e)\<rparr>,
                  warning (''API error checking '' @ ow @ ''/'' @ rp @ ''@'' @ r @ '': ''
                             @ template (err_message e))
                    (st\<lparr>world := w, requests := requests st @ [(ow, rp, r)]\<rparr>)))))"
proof (intro conjI impI allI)
  show "(\<exists>res st'. checkReleaseImmutability oc ow rp r st = (Inr res, st')) \<longleftrightarrow>
      isFullSHA r \<or> (fst (oc (world st) (ow, rp, r)) \<noteq> Thrown ThrownNull
                     \<and> fst (oc (world st) (ow, rp, r)) \<noteq> Thrown ThrownUndefined)"
  proof (cases "oc (world st) (ow, rp, r)")
    case (Pair resp w)
    show ?thesis
    proof (cases resp)
      case (Release imm)
      then show ?thesis
        using Pair
        by (simp add: checkReleaseImmutability_def tryGetRelease_def getReleaseByTag_def Let_def)
    next
      case (Thrown t)
      then show ?thesis
        using Pair
        by (cases t) (simp_all add: checkReleaseImmutability_def tryGetRelease_def getReleaseByTag_def)
    qed
  qed
next
  fix e w
  assume "\<not> isFullSHA r" and "oc (world st) (ow, rp, r) = (Thrown (ThrownValue e), w)"
  then show "if err_status e = Some 404
          then checkReleaseImmutability oc ow rp r st =
                 (Inr \<lparr>immutable = False, releaseFound = False,
                       message = ''No release found for this reference''\<rparr>,
                  st\<lparr>world := w, requests := requests st @ [(ow, rp, r)]\<rparr>)
          else checkReleaseImmutability oc ow rp r st =
                 (Inr \<lparr>immutable = False, releaseFound = False,
                       message = ''API error: '' @ template (err_message e)\<rparr>,
                  warning (''API error checking '' @ ow @ ''/'' @ rp @ ''@'' @ r @ '': ''
                             @ template (err_message e))
                    (st\<lparr>world := w, requests := requests st @ [(ow, rp, r)]\<rparr>))"
    by (simp add: checkReleaseImmutability_def tryGetRelease_def getReleaseByTag_def)
qed

lemma not_sha_v1: "\<not> isFullSHA ''v1.0.0''"
  by (simp add: isFullSHA_iff)

theorem checkReleaseImmutability_handler_witness:
  "checkReleaseImmutability serverError ''owner'' ''repo'' ''v1.0.0'' st0
   = (Inr \<lparr>immutable = False, releaseFound = False, message = ''API error: Server Error''\<rparr>,
      st0\<lparr>requests := [(''owner'', ''repo'', ''v1.0.0'')],
          warnings := [''API error checking owner/repo@v1.0.0: Server Error'']\<rparr>)
   \<and> checkReleaseImmutability notFound ''owner'' ''repo'' ''v1.0.0'' st0
   = (Inr \<lparr>immutable = False, releaseFound = False, message = ''No release found for this reference''\<rparr>,
      st0\<lparr>requests := [(''owner'', ''repo'', ''v1.0.0'')]\<rparr>)"
  using checkReleaseImmutability_handler [of serverError "''owner''" "''repo''" "''v1.0.0''" st0]
        checkReleaseImmutability_handler [of notFound "''owner''" "''repo''" "''v1.0.0''" st0]
        not_sha_v1
  by (simp add: st0_def warning_def serverError_def notFound_def)

text \<open>
  C3 as it is written fails on a request that throws null: the handler reads the status
  of what it caught, and that read throws.
\<close>

theorem checkReleaseImmutability_thrown_null:
  "checkReleaseImmutability throwsNull ''owner'' ''repo'' ''v1.0.0'' st0
   = (Inl (typeError ''Cannot read properties of null (reading 'status')''),
      st0\<lparr>requests := [(''owner'', ''repo'', ''v1.0.0'')]\<rparr>)"
  by (simp add: checkReleaseImmutability_def not_sha_v1 tryGetRelease_def getReleaseByTag_def
        throwsNull_def st0_def)

section \<open>The \<^verbatim>\<open>Map\<close>: order of keys, values kept\<close>

lemma map_fst_map_set:
  "map fst (map_set m k v) = (if k \<in> fst ` set m then map fst m else map fst m @ [k])"
  by (induction m k v rule: map_set.induct) (auto simp: image_iff)

lemma map_of_map_set: "map_of (map_set m k v) = (map_of m)(k \<mapsto> v)"
  by (induction m k v rule: map_set.induct) (auto simp: fun_eq_iff)

lemma distinct_map_set: "distinct (map fst m) \<Longrightarrow> distinct (map fst (map_set m k v))"
  by (simp add: map_fst_map_set)

lemma remdups_drop_earlier: "x \<in> set ys \<Longrightarrow> remdups (xs @ x # ys) = remdups (xs @ ys)"
  by (induction xs) auto

lemma firstOccurrences_snoc:
  "firstOccurrences (xs @ [x]) = (if x \<in> set xs then firstOccurrences xs else firstOccurrences xs @ [x])"
  by (simp add: firstOccurrences_def)

lemma firstOccurrences_distinct_id: "distinct xs \<Longrightarrow> firstOccurrences xs = xs"
  by (simp add: firstOccurrences_def distinct_remdups_id)

lemma set_firstOccurrences [simp]: "set (firstOccurrences xs) = set xs"
  by (simp add: firstOccurrences_def)

lemma distinct_firstOccurrences [simp]: "distinct (firstOccurrences xs)"
  by (simp add: firstOccurrences_def)

lemma firstOccurrences_append:
  "firstOccurrences (xs @ ys) = firstOccurrences xs @ filter (\<lambda>y. y \<notin> set xs) (firstOccurrences ys)"
proof (induction ys rule: rev_induct)
  case Nil
  show ?case by (simp add: firstOccurrences_def)
next
  case (snoc y ys)
  have "firstOccurrences (xs @ ys @ [y]) = firstOccurrences ((xs @ ys) @ [y])" by simp
  also have "\<dots> = (if y \<in> set (xs @ ys) then firstOccurrences (xs @ ys) else firstOccurrences (xs @ ys) @ [y])"
    by (rule firstOccurrences_snoc)
  finally show ?case using snoc.IH by (auto simp: firstOccurrences_snoc)
qed

lemma firstOccurrences_Cons:
  "firstOccurrences (x # xs) = x # filter (\<lambda>y. y \<noteq> x) (firstOccurrences xs)"
  using firstOccurrences_append [of "[x]" xs] by (simp add: firstOccurrences_def)

lemma keys_fold_map_set:
  "distinct (map fst m) \<Longrightarrow>
   map fst (foldl (\<lambda>m (k, v). map_set m k v) m es) = firstOccurrences (map fst m @ map fst es)"
proof (induction es rule: rev_induct)
  case Nil
  then show ?case by (simp add: firstOccurrences_distinct_id)
next
  case (snoc e es)
  obtain k v where e: "e = (k, v)" by (cases e)
  have "map fst (foldl (\<lambda>m (k, v). map_set m k v) m (es @ [e]))
      = map fst (map_set (foldl (\<lambda>m (k, v). map_set m k v) m es) k v)"
    by (simp add: e)
  also have "\<dots> = (if k \<in> set (map fst m @ map fst es) then firstOccurrences (map fst m @ map fst es)
                   else firstOccurrences (map fst m @ map fst es) @ [k])"
    using snoc by (simp only: map_fst_map_set set_map [symmetric] set_firstOccurrences) 
  also have "\<dots> = firstOccurrences ((map fst m @ map fst es) @ [k])"
    by (simp only: firstOccurrences_snoc)
  finally show ?case by (simp add: e)
qed

lemma map_of_fold_map_set:
  "map_of (foldl (\<lambda>m (k, v). map_set m k v) m es) = map_of m ++ map_of (rev es)"
proof (induction es rule: rev_induct)
  case Nil
  show ?case by simp
next
  case (snoc e es)
  obtain k v where e: "e = (k, v)" by (cases e)
  show ?case using snoc by (simp add: e map_of_map_set fun_eq_iff map_add_def)
qed

lemma keys_new_Map: "map fst (new_Map es) = firstOccurrences (map fst es)"
  unfolding new_Map_def using keys_fold_map_set [of "[]" es] by simp

lemma map_of_new_Map: "map_of (new_Map es) = map_of (rev es)"
  unfolding new_Map_def using map_of_fold_map_set [of "[]" es] by simp


lemma keyed_values: "\<forall>(k, a)\<in>set m. k = f a \<Longrightarrow> map f (map snd m) = map fst m"
  by (induction m) auto

lemma new_Map_keyed:
  assumes "(k, a) \<in> set (new_Map (map (\<lambda>a. (f a, a)) xs))"
  shows "k = f a \<and> a \<in> set xs"
proof -
  let ?es = "map (\<lambda>a. (f a, a)) xs"
  have "distinct (map fst (new_Map ?es))" by (simp add: keys_new_Map)
  then have "map_of (new_Map ?es) k = Some a"
    using assms by simp
  then have "map_of (rev ?es) k = Some a"
    by (simp add: map_of_new_Map)
  then have "(k, a) \<in> set (rev ?es)" by (rule map_of_SomeD)
  then show ?thesis by auto
qed

lemma uses_uniqueByUses: "map uses (uniqueByUses xs) = firstOccurrences (map uses xs)"
proof -
  let ?m = "new_Map (map (\<lambda>a. (uses a, a)) xs)"
  have "\<forall>(k, a)\<in>set ?m. k = uses a"
    using new_Map_keyed [of _ _ uses xs] by auto
  then have "map uses (map snd ?m) = map fst ?m" by (rule keyed_values)
  then show ?thesis
    by (simp add: uniqueByUses_def map_values_def keys_new_Map comp_def)
qed

lemma set_uniqueByUses_subset: "set (uniqueByUses xs) \<subseteq> set xs"
  unfolding uniqueByUses_def map_values_def
  using new_Map_keyed [of _ _ uses xs] by auto

lemma map_of_rev_last:
  "map_of (rev (map (\<lambda>a. (f a, a)) xs)) k = Some a \<longleftrightarrow>
     filter (\<lambda>b. f b = k) xs \<noteq> [] \<and> a = last (filter (\<lambda>b. f b = k) xs)"
  by (induction xs rule: rev_induct) auto

lemma uniqueByUses_last:
  assumes "a \<in> set (uniqueByUses xs)"
  shows "a = last (filter (\<lambda>b. uses b = uses a) xs)"
proof -
  let ?es = "map (\<lambda>a. (uses a, a)) xs"
  obtain k where ka: "(k, a) \<in> set (new_Map ?es)"
    using assms unfolding uniqueByUses_def map_values_def by auto
  then have k: "k = uses a" using new_Map_keyed [of k a uses xs] by simp
  have "distinct (map fst (new_Map ?es))" by (simp add: keys_new_Map)
  then have "map_of (new_Map ?es) k = Some a" using ka by simp
  then have "map_of (rev ?es) (uses a) = Some a" by (simp add: map_of_new_Map k)
  then show ?thesis unfolding map_of_rev_last by simp
qed

lemma distinct_uses_uniqueByUses: "distinct (map uses (uniqueByUses xs))"
  by (simp add: uses_uniqueByUses)

lemma set_uses_uniqueByUses: "uses ` set (uniqueByUses xs) = uses ` set xs"
  using arg_cong [OF uses_uniqueByUses [of xs], of set] by simp

lemma count_distinct_key:
  "distinct (map f xs) \<Longrightarrow> length (filter (\<lambda>a. f a = k) xs) = (if k \<in> f ` set xs then 1 else 0)"
  by (induction xs) (auto simp: image_iff)

section \<open>The loops in closed form\<close>

lemma checkReleaseImmutability_returns:
  "(\<exists>res st1. checkReleaseImmutability oc ow rp r st = (Inr res, st1))
     \<longleftrightarrow> isFullSHA r \<or> \<not> nullish (fst (oc (world st) (ow, rp, r)))"
proof (cases "oc (world st) (ow, rp, r)")
  case (Pair resp w)
  show ?thesis
  proof (cases resp)
    case (Release imm)
    then show ?thesis
      using Pair
      by (simp add: checkReleaseImmutability_def tryGetRelease_def getReleaseByTag_def Let_def nullish_def)
  next
    case (Thrown t)
    then show ?thesis
      using Pair
      by (cases t)
         (simp_all add: checkReleaseImmutability_def tryGetRelease_def getReleaseByTag_def nullish_def)
  qed
qed

lemma checkReleaseImmutability_logs:
  assumes "checkReleaseImmutability oc ow rp r st = (x, st1)"
  shows "requests st1 = requests st @ (if isFullSHA r then [] else [(ow, rp, r)])"
    and "infos st1 = infos st"
proof -
  obtain resp w where oc: "oc (world st) (ow, rp, r) = (resp, w)" by (cases "oc (world st) (ow, rp, r)")
  show "requests st1 = requests st @ (if isFullSHA r then [] else [(ow, rp, r)])"
    using assms oc
    by (cases resp)
       (auto simp: checkReleaseImmutability_def tryGetRelease_def getReleaseByTag_def Let_def warning_def
             split: if_splits thrown.splits)
  show "infos st1 = infos st"
    using assms oc
    by (cases resp)
       (auto simp: checkReleaseImmutability_def tryGetRelease_def getReleaseByTag_def Let_def warning_def
             split: if_splits thrown.splits)
qed

lemma length_resolutions: "length (resolutions oc as st) = length as"
  by (induction as arbitrary: st) simp_all

lemma resolves_if:
  assumes "\<forall>w rq. \<not> nullish (fst (oc w rq))"
  shows "resolves oc as st"
proof (induction as arbitrary: st)
  case Nil
  show ?case by simp
next
  case (Cons a as)
  obtain res st1 where "checkReleaseImmutability oc (owner a) (repo a) (ref a) (info (checkingLine a) st) = (Inr res, st1)"
    using checkReleaseImmutability_returns [of oc "owner a" "repo a" "ref a" "info (checkingLine a) st"] assms
    by blast
  then show ?case using Cons.IH [of st1] by simp
qed

lemma thirdPartyLoop_eq:
  assumes "resolves oc as st"
  shows "thirdPartyLoop oc as c mu im st =
     (Inr (foldl (\<lambda>m (k, v). map_set m k v) c (map (\<lambda>(a, r). (uses a, r)) (zip as (resolutions oc as st))),
           mu @ map thirdPartyInfo (filter (\<lambda>(a, r). \<not> immutable r) (zip as (resolutions oc as st))),
           im @ map thirdPartyInfo (filter (\<lambda>(a, r). immutable r) (zip as (resolutions oc as st)))),
      afterResolutions oc as st)"
  using assms
proof (induction as arbitrary: c mu im st)
  case Nil
  show ?case by simp
next
  case (Cons a as)
  obtain x st1 where r0: "checkReleaseImmutability oc (owner a) (repo a) (ref a) (info (checkingLine a) st) = (x, st1)"
    by (cases "checkReleaseImmutability oc (owner a) (repo a) (ref a) (info (checkingLine a) st)")
  then obtain res where x: "x = Inr res" and rest: "resolves oc as st1"
    using Cons.prems by (cases x) simp_all
  note r = r0 [unfolded x]
  show ?case
  proof (cases "immutable res")
    case True
    then show ?thesis
      using r Cons.IH [OF rest, of "map_set c (uses a) res" mu "im @ [thirdPartyInfo (a, res)]"]
      by (simp add: thirdPartyInfo_def)
  next
    case False
    then show ?thesis
      using r Cons.IH [OF rest, of "map_set c (uses a) res" "mu @ [thirdPartyInfo (a, res)]" im]
      by (simp add: thirdPartyInfo_def)
  qed
qed

lemma thirdPartyLoop_throws:
  assumes "\<not> resolves oc as st"
  shows "\<exists>err st1. thirdPartyLoop oc as c mu im st = (Inl err, st1)"
  using assms
proof (induction as arbitrary: c mu im st)
  case Nil
  then show ?case by simp
next
  case (Cons a as)
  obtain x st1 where r0: "checkReleaseImmutability oc (owner a) (repo a) (ref a) (info (checkingLine a) st) = (x, st1)"
    by (cases "checkReleaseImmutability oc (owner a) (repo a) (ref a) (info (checkingLine a) st)")
  show ?case
  proof (cases x)
    case (Inl err)
    then show ?thesis using r0 by simp
  next
    case (Inr res)
    then have rest: "\<not> resolves oc as st1"
      using Cons.prems r0 by simp
    show ?thesis
    proof (cases "immutable res")
      case True
      then show ?thesis
        using r0 Inr Cons.IH [OF rest, of "map_set c (uses a) res" mu "im @ [thirdPartyInfo (a, res)]"]
        by (simp add: thirdPartyInfo_def)
    next
      case False
      then show ?thesis
        using r0 Inr Cons.IH [OF rest, of "map_set c (uses a) res" "mu @ [thirdPartyInfo (a, res)]" im]
        by (simp add: thirdPartyInfo_def)
    qed
  qed
qed

text \<open>Whether the loop ends or throws, every request it has sent is for an action of its list.\<close>

lemma thirdPartyLoop_requests:
  "\<exists>new. requests (snd (thirdPartyLoop oc as c mu im st)) = requests st @ new
         \<and> set new \<subseteq> (\<lambda>a. (owner a, repo a, ref a)) ` set as"
proof (induction as arbitrary: c mu im st)
  case Nil
  show ?case by simp
next
  case (Cons a as)
  obtain x st1 where r0: "checkReleaseImmutability oc (owner a) (repo a) (ref a) (info (checkingLine a) st) = (x, st1)"
    by (cases "checkReleaseImmutability oc (owner a) (repo a) (ref a) (info (checkingLine a) st)")
  have first: "requests st1 = requests st @ (if isFullSHA (ref a) then [] else [(owner a, repo a, ref a)])"
    using checkReleaseImmutability_logs(1) [OF r0] by (simp add: info_def)
  show ?case
  proof (cases x)
    case (Inl err)
    then have "snd (thirdPartyLoop oc (a # as) c mu im st) = st1"
      using r0 by simp
    then show ?thesis using first by simp
  next
    case (Inr res)
    obtain c' mu' im' where step: "thirdPartyLoop oc (a # as) c mu im st = thirdPartyLoop oc as c' mu' im' st1"
      using r0 Inr by (cases "immutable res") simp_all
    obtain new where new: "requests (snd (thirdPartyLoop oc as c' mu' im' st1)) = requests st1 @ new"
        "set new \<subseteq> (\<lambda>a. (owner a, repo a, ref a)) ` set as"
      using Cons.IH [of c' mu' im' st1] by blast
    have "requests (snd (thirdPartyLoop oc (a # as) c mu im st))
            = requests st @ ((if isFullSHA (ref a) then [] else [(owner a, repo a, ref a)]) @ new)"
      unfolding step new(1) first by simp
    moreover have "set ((if isFullSHA (ref a) then [] else [(owner a, repo a, ref a)]) @ new)
            \<subseteq> (\<lambda>a. (owner a, repo a, ref a)) ` set (a # as)"
      using new(2) by auto
    ultimately show ?thesis by blast
  qed
qed

lemma firstPartyLoop_eq:
  "firstPartyLoop as c fp =
     (foldl (\<lambda>m (k, v). map_set m k v) c (map (\<lambda>a. (uses a, firstPartyOutcome)) as),
      fp @ map firstPartyInfo as)"
  by (induction as arbitrary: c fp) (simp_all add: firstPartyInfo_def firstPartyOutcome_def)

lemma afterResolutions_requests:
  "requests (afterResolutions oc as st)
     = requests st @ map (\<lambda>a. (owner a, repo a, ref a)) (filter (\<lambda>a. \<not> isFullSHA (ref a)) as)"
proof (induction as arbitrary: st)
  case Nil
  show ?case by simp
next
  case (Cons a as)
  obtain x st1 where r: "checkReleaseImmutability oc (owner a) (repo a) (ref a) (info (checkingLine a) st) = (x, st1)"
    by (cases "checkReleaseImmutability oc (owner a) (repo a) (ref a) (info (checkingLine a) st)")
  have step: "afterResolutions oc (a # as) st = afterResolutions oc as st1"
    using r by simp
  show ?case
    unfolding step using checkReleaseImmutability_logs(1) [OF r] Cons.IH [of st1] by (simp add: info_def)
qed

lemma afterResolutions_infos:
  "infos (afterResolutions oc as st) = infos st @ map checkingLine as"
proof (induction as arbitrary: st)
  case Nil
  show ?case by simp
next
  case (Cons a as)
  obtain x st1 where r: "checkReleaseImmutability oc (owner a) (repo a) (ref a) (info (checkingLine a) st) = (x, st1)"
    by (cases "checkReleaseImmutability oc (owner a) (repo a) (ref a) (info (checkingLine a) st)")
  have step: "afterResolutions oc (a # as) st = afterResolutions oc as st1"
    using r by simp
  show ?case
    unfolding step using checkReleaseImmutability_logs(2) [OF r] Cons.IH [of st1] by (simp add: info_def)
qed

lemma groupByWorkflow_eq:
  assumes "\<forall>a\<in>set as. workflowFile a \<notin> set objectPrototypeKeys"
  shows "\<exists>g'. groupByWorkflow as g = Inr g'
           \<and> (distinct (map fst g) \<longrightarrow> distinct (map fst g'))
           \<and> (\<forall>f. map_of g' f =
                 (if f \<in> workflowFile ` set as
                  then Some ((case map_of g f of None \<Rightarrow> [] | Some xs \<Rightarrow> xs) @ filter (\<lambda>a. workflowFile a = f) as)
                  else map_of g f))"
  using assms
proof (induction as arbitrary: g)
  case Nil
  show ?case by simp
next
  case (Cons a as)
  define g1 where "g1 = map_set g (workflowFile a) ((case map_of g (workflowFile a) of None \<Rightarrow> [] | Some xs \<Rightarrow> xs) @ [a])"
  have step: "groupByWorkflow (a # as) g = groupByWorkflow as g1"
    using Cons.prems by (simp add: g1_def map_get_def split: option.splits)
  have m1: "map_of g1 = (map_of g)(workflowFile a \<mapsto> (case map_of g (workflowFile a) of None \<Rightarrow> [] | Some xs \<Rightarrow> xs) @ [a])"
    by (simp add: g1_def map_of_map_set)
  have d1: "distinct (map fst g) \<longrightarrow> distinct (map fst g1)"
    by (simp add: g1_def distinct_map_set)
  obtain g' where g': "groupByWorkflow as g1 = Inr g'"
    and dg': "distinct (map fst g1) \<longrightarrow> distinct (map fst g')"
    and mg': "\<forall>f. map_of g' f =
                 (if f \<in> workflowFile ` set as
                  then Some ((case map_of g1 f of None \<Rightarrow> [] | Some xs \<Rightarrow> xs) @ filter (\<lambda>a. workflowFile a = f) as)
                  else map_of g1 f)"
    using Cons.IH [of g1] Cons.prems by auto
  have "map_of g' f =
          (if f \<in> workflowFile ` set (a # as)
           then Some ((case map_of g f of None \<Rightarrow> [] | Some xs \<Rightarrow> xs) @ filter (\<lambda>a. workflowFile a = f) (a # as))
           else map_of g f)" for f
    using mg' [rule_format, of f]
    by (auto simp: m1 filter_empty_conv empty_filter_conv image_iff split: option.splits)
  then show ?case
    using step g' dg' d1 by auto
qed

lemma categorize_eq:
  assumes "\<forall>a\<in>set as. \<not> isFirstParty a \<longrightarrow> map_get c (uses a) \<noteq> None"
  shows "categorize c as acc =
           Inr \<lparr>mutable_actions = mutable_actions acc @ mutable_actions (fileLists c as),
                immutable_actions = immutable_actions acc @ immutable_actions (fileLists c as),
                firstParty_actions = firstParty_actions acc @ firstParty_actions (fileLists c as)\<rparr>"
  using assms
proof (induction as arbitrary: acc)
  case Nil
  show ?case by (simp add: fileLists_def)
next
  case (Cons a as)
  show ?case
  proof (cases "isFirstParty a")
    case True
    then show ?thesis
      using Cons.IH [of "acc\<lparr>firstParty_actions := firstParty_actions acc @ [fileInfo c a]\<rparr>"] Cons.prems
      by (simp add: fileLists_def fileInfo_def Let_def)
  next
    case False
    then obtain r where r: "map_get c (uses a) = Some r" using Cons.prems by auto
    show ?thesis
    proof (cases "immutable r")
      case True
      then show ?thesis
        using \<open>\<not> isFirstParty a\<close> r Cons.prems
          Cons.IH [of "acc\<lparr>immutable_actions := immutable_actions acc @ [fileInfo c a]\<rparr>"]
        by (simp add: fileLists_def fileInfo_def cachedImmutable_def Let_def)
    next
      case False
      then show ?thesis
        using \<open>\<not> isFirstParty a\<close> r Cons.prems
          Cons.IH [of "acc\<lparr>mutable_actions := mutable_actions acc @ [fileInfo c a]\<rparr>"]
        by (simp add: fileLists_def fileInfo_def cachedImmutable_def Let_def)
    qed
  qed
qed

lemma workflowLoop_eq:
  assumes "\<forall>(f, as)\<in>set gs. \<forall>a\<in>set as. \<not> isFirstParty a \<longrightarrow> map_get c (uses a) \<noteq> None"
    and "distinct (map fst gs)"
  shows "workflowLoop c gs bw =
           Inr (\<lambda>f. case map_of gs f of Some as \<Rightarrow> Some (fileLists c (uniqueByUses as)) | None \<Rightarrow> bw f)"
  using assms
proof (induction gs arbitrary: bw)
  case Nil
  show ?case by simp
next
  case (Cons g gs)
  obtain f as where g: "g = (f, as)" by (cases g)
  have "\<forall>a\<in>set (uniqueByUses as). \<not> isFirstParty a \<longrightarrow> map_get c (uses a) \<noteq> None"
    using Cons.prems(1) set_uniqueByUses_subset [of as] unfolding g by auto
  then have cat: "categorize c (uniqueByUses as) \<lparr>mutable_actions = [], immutable_actions = [], firstParty_actions = []\<rparr>
               = Inr (fileLists c (uniqueByUses as))"
    by (simp add: categorize_eq)
  have notin: "map_of gs f = None"
    using Cons.prems(2) unfolding g by (simp add: map_of_eq_None_iff)
  have "workflowLoop c (g # gs) bw = workflowLoop c gs (bw(f \<mapsto> fileLists c (uniqueByUses as)))"
    by (simp add: g cat)
  also have "\<dots> = Inr (\<lambda>f'. case map_of gs f' of Some as' \<Rightarrow> Some (fileLists c (uniqueByUses as'))
                             | None \<Rightarrow> (bw(f \<mapsto> fileLists c (uniqueByUses as))) f')"
    by (rule Cons.IH) (use Cons.prems in \<open>auto simp: g\<close>)
  also have "\<dots> = Inr (\<lambda>f'. case map_of (g # gs) f' of Some as' \<Rightarrow> Some (fileLists c (uniqueByUses as'))
                             | None \<Rightarrow> bw f')"
    using notin by (auto simp: g fun_eq_iff split: option.splits)
  finally show ?case .
qed

lemma keys_resolved: "map (\<lambda>(a, r). uses a) (resolved oc actions st) = map uses (thirdPartyUnique actions)"
proof -
  have "map fst (resolved oc actions st) = thirdPartyUnique actions"
    unfolding resolved_def by (simp add: length_resolutions)
  then have "map (uses \<circ> fst) (resolved oc actions st) = map uses (thirdPartyUnique actions)"
    by (metis map_map)
  then show ?thesis by (simp add: comp_def case_prod_unfold)
qed

lemma finalCache_complete:
  assumes "a \<in> set actions" and "\<not> isFirstParty a"
  shows "map_get (finalCache oc actions st) (uses a) \<noteq> None"
proof -
  let ?tp = "map (\<lambda>(a, r). (uses a, r)) (resolved oc actions st)"
  have "map fst ?tp = map uses (thirdPartyUnique actions)"
    using keys_resolved [of oc actions st] by (simp add: comp_def case_prod_unfold)
  then have "fst ` set ?tp = uses ` set (thirdPartyUnique actions)"
    by (metis list.set_map)
  also have "\<dots> = uses ` set (filter (\<lambda>a. \<not> isFirstParty a) actions)"
    unfolding thirdPartyUnique_def by (rule set_uses_uniqueByUses)
  finally have "uses a \<in> fst ` set (rev ?tp)" using assms by auto
  then have "map_of (rev ?tp) (uses a) \<noteq> None"
    by (simp only: map_of_eq_None_iff not_not)
  then show ?thesis
    unfolding map_get_def finalCache_def map_of_fold_map_set by (auto simp: map_add_def split: option.splits)
qed

lemma checkAllActions_eq:
  assumes "\<forall>a\<in>set actions. workflowFile a \<notin> set objectPrototypeKeys"
    and "resolves oc (thirdPartyUnique actions) st"
  shows "checkAllActions oc actions st =
           (Inr \<lparr>mutable_actions = map thirdPartyInfo (filter (\<lambda>(a, r). \<not> immutable r) (resolved oc actions st)),
                 immutable_actions = map thirdPartyInfo (filter (\<lambda>(a, r). immutable r) (resolved oc actions st)),
                 firstParty_actions = map firstPartyInfo (firstPartyUnique actions),
                 byWorkflow = fileReport oc actions st\<rparr>,
            afterResolutions oc (thirdPartyUnique actions) st)"
proof -
  let ?c = "finalCache oc actions st"
  obtain g where g: "groupByWorkflow actions [] = Inr g" and dg: "distinct (map fst g)"
    and mg: "\<forall>f. map_of g f = (if f \<in> workflowFile ` set actions
                                 then Some (filter (\<lambda>a. workflowFile a = f) actions) else None)"
    using groupByWorkflow_eq [OF assms(1), of "[]"] by auto
  have sub: "\<forall>(f, as)\<in>set g. \<forall>a\<in>set as. \<not> isFirstParty a \<longrightarrow> map_get ?c (uses a) \<noteq> None"
  proof -
    have "map_get ?c (uses a) \<noteq> None" if "(f, as) \<in> set g" "a \<in> set as" "\<not> isFirstParty a" for f as a
    proof -
      have "map_of g f = Some as" using dg that(1) by simp
      then have "as = filter (\<lambda>a. workflowFile a = f) actions"
        using mg [rule_format, of f] by (auto split: if_splits)
      then have "a \<in> set actions" using that(2) by simp
      then show ?thesis using that(3) by (rule finalCache_complete)
    qed
    then show ?thesis by blast
  qed
  have bw: "workflowLoop ?c g Map.empty = Inr (fileReport oc actions st)"
    unfolding workflowLoop_eq [OF sub dg]
    using mg by (auto simp: fileReport_def fun_eq_iff)
  show ?thesis
    unfolding checkAllActions_def Let_def firstPartyLoop_eq
      thirdPartyLoop_eq [OF assms(2) [unfolded thirdPartyUnique_def]]
    using g bw
    by (simp add: finalCache_def resolved_def thirdPartyUnique_def firstPartyUnique_def)
qed


section \<open>When the aggregation returns\<close>

text \<open>
  The aggregation returns a report exactly when the resolver returns for every unique
  third-party action and no workflow file of the input is named like a property of
  \<^verbatim>\<open>Object.prototype\<close>. Otherwise it throws: in the loop of the resolver, or in the
  grouping by workflow, after the resolver has done its work.
\<close>

lemma keys_map_set: "fst ` set (map_set m k v) = insert k (fst ` set m)"
  by (induction m k v rule: map_set.induct) auto

lemma groupByWorkflow_throws:
  assumes "\<exists>a\<in>set as. workflowFile a \<in> set objectPrototypeKeys"
    and "\<forall>k\<in>fst ` set g. k \<notin> set objectPrototypeKeys"
  shows "\<exists>err. groupByWorkflow as g = Inl err"
  using assms
proof (induction as arbitrary: g)
  case Nil
  then show ?case by simp
next
  case (Cons a as)
  show ?case
  proof (cases "workflowFile a \<in> set objectPrototypeKeys")
    case True
    then have "workflowFile a \<notin> fst ` set g" using Cons.prems(2) by blast
    then have "map_get g (workflowFile a) = None"
      unfolding map_get_def by (rule iffD2 [OF map_of_eq_None_iff])
    then have "groupByWorkflow (a # as) g = Inl (typeError ''actionsByWorkflow[workflowFile].push is not a function'')"
      using True by simp
    then show ?thesis by blast
  next
    case False
    define g1 where "g1 = map_set g (workflowFile a) ((case map_of g (workflowFile a) of None \<Rightarrow> [] | Some xs \<Rightarrow> xs) @ [a])"
    have step: "groupByWorkflow (a # as) g = groupByWorkflow as g1"
      using False by (simp add: g1_def map_get_def split: option.splits)
    have "fst ` set g1 = insert (workflowFile a) (fst ` set g)"
      unfolding g1_def by (rule keys_map_set)
    then have keys: "\<forall>k\<in>fst ` set g1. k \<notin> set objectPrototypeKeys"
      using Cons.prems(2) False by simp
    have rest: "\<exists>a\<in>set as. workflowFile a \<in> set objectPrototypeKeys"
      using Cons.prems(1) False by auto
    show ?thesis
      unfolding step using rest keys by (rule Cons.IH)
  qed
qed

lemma checkAllActions_returns_iff:
  "(\<exists>rep st'. checkAllActions oc actions st = (Inr rep, st'))
     \<longleftrightarrow> (\<forall>a\<in>set actions. workflowFile a \<notin> set objectPrototypeKeys)
           \<and> resolves oc (thirdPartyUnique actions) st"
proof
  assume "(\<forall>a\<in>set actions. workflowFile a \<notin> set objectPrototypeKeys)
           \<and> resolves oc (thirdPartyUnique actions) st"
  then show "\<exists>rep st'. checkAllActions oc actions st = (Inr rep, st')"
    using checkAllActions_eq [of actions oc st] by blast
next
  assume r: "\<exists>rep st'. checkAllActions oc actions st = (Inr rep, st')"
  have res: "resolves oc (thirdPartyUnique actions) st"
  proof (rule ccontr)
    assume "\<not> resolves oc (thirdPartyUnique actions) st"
    then have "\<not> resolves oc (uniqueByUses (filter (\<lambda>a. \<not> isFirstParty a) actions)) st"
      unfolding thirdPartyUnique_def .
    then obtain err st1 where
      "thirdPartyLoop oc (uniqueByUses (filter (\<lambda>a. \<not> isFirstParty a) actions))
         (foldl (\<lambda>m (k, v). map_set m k v) []
            (map (\<lambda>a. (uses a, firstPartyOutcome)) (uniqueByUses (filter (\<lambda>a. isFirstParty a) actions))))
         [] [] st = (Inl err, st1)"
      using thirdPartyLoop_throws by blast
    then have "checkAllActions oc actions st = (Inl err, st1)"
      unfolding checkAllActions_def Let_def firstPartyLoop_eq by simp
    then show False using r by auto
  qed
  have files: "\<forall>a\<in>set actions. workflowFile a \<notin> set objectPrototypeKeys"
  proof (rule ccontr)
    assume "\<not> (\<forall>a\<in>set actions. workflowFile a \<notin> set objectPrototypeKeys)"
    then have "\<exists>a\<in>set actions. workflowFile a \<in> set objectPrototypeKeys" by blast
    then obtain err where "groupByWorkflow actions [] = Inl err"
      using groupByWorkflow_throws [of actions "[]"] by auto
    then have "\<exists>err st'. checkAllActions oc actions st = (Inl err, st')"
      unfolding checkAllActions_def Let_def firstPartyLoop_eq
        thirdPartyLoop_eq [OF res [unfolded thirdPartyUnique_def]]
      by simp
    then show False using r by auto
  qed
  show "(\<forall>a\<in>set actions. workflowFile a \<notin> set objectPrototypeKeys)
           \<and> resolves oc (thirdPartyUnique actions) st"
    using files res by simp
qed

text \<open>The report that is returned, and the state then.\<close>

lemma checkAllActions_returned:
  assumes "checkAllActions oc actions st = (Inr rep, st')"
  shows "rep = \<lparr>mutable_actions = map thirdPartyInfo (filter (\<lambda>(a, r). \<not> immutable r) (resolved oc actions st)),
                 immutable_actions = map thirdPartyInfo (filter (\<lambda>(a, r). immutable r) (resolved oc actions st)),
                 firstParty_actions = map firstPartyInfo (firstPartyUnique actions),
                 byWorkflow = fileReport oc actions st\<rparr>"
    and "st' = afterResolutions oc (thirdPartyUnique actions) st"
    and "\<forall>a\<in>set actions. workflowFile a \<notin> set objectPrototypeKeys"
    and "resolves oc (thirdPartyUnique actions) st"
proof -
  have both: "(\<forall>a\<in>set actions. workflowFile a \<notin> set objectPrototypeKeys)
           \<and> resolves oc (thirdPartyUnique actions) st"
    using assms checkAllActions_returns_iff [of oc actions st] by blast
  then show "\<forall>a\<in>set actions. workflowFile a \<notin> set objectPrototypeKeys"
    and "resolves oc (thirdPartyUnique actions) st"
    by simp_all
  note eq = checkAllActions_eq [OF both [THEN conjunct1] both [THEN conjunct2]]
  show "rep = \<lparr>mutable_actions = map thirdPartyInfo (filter (\<lambda>(a, r). \<not> immutable r) (resolved oc actions st)),
                 immutable_actions = map thirdPartyInfo (filter (\<lambda>(a, r). immutable r) (resolved oc actions st)),
                 firstParty_actions = map firstPartyInfo (firstPartyUnique actions),
                 byWorkflow = fileReport oc actions st\<rparr>"
    using assms unfolding eq by simp
  show "st' = afterResolutions oc (thirdPartyUnique actions) st"
    using assms unfolding eq by simp
qed

text \<open>
  Whether the aggregation returns or throws, the requests it has sent are for unique
  third-party actions.
\<close>

lemma checkAllActions_requests:
  "\<exists>new. requests (snd (checkAllActions oc actions st)) = requests st @ new
         \<and> set new \<subseteq> (\<lambda>a. (owner a, repo a, ref a)) ` set (thirdPartyUnique actions)"
proof -
  let ?U = "uniqueByUses (filter (\<lambda>a. \<not> isFirstParty a) actions)"
  let ?C = "foldl (\<lambda>m (k, v). map_set m k v) []
              (map (\<lambda>a. (uses a, firstPartyOutcome)) (uniqueByUses (filter (\<lambda>a. isFirstParty a) actions)))"
  obtain x st1 where loop: "thirdPartyLoop oc ?U ?C [] [] st = (x, st1)"
    by (cases "thirdPartyLoop oc ?U ?C [] [] st")
  have "snd (checkAllActions oc actions st) = st1"
    unfolding checkAllActions_def Let_def firstPartyLoop_eq
    using loop by (simp split: sum.splits prod.splits)
  then show ?thesis
    using thirdPartyLoop_requests [of oc ?U ?C "[]" "[]" st] loop
    by (simp add: thirdPartyUnique_def)
qed

section \<open>The report is a function of the list and of the responses\<close>

lemma checkReleaseImmutability_responses:
  assumes "\<forall>w w' rq. fst (oc w rq) = fst (oc' w' rq)"
  shows "fst (checkReleaseImmutability oc ow rp r st) = fst (checkReleaseImmutability oc' ow rp r st')"
proof -
  obtain resp w where a: "oc (world st) (ow, rp, r) = (resp, w)" by (cases "oc (world st) (ow, rp, r)")
  obtain resp' w' where b: "oc' (world st') (ow, rp, r) = (resp', w')" by (cases "oc' (world st') (ow, rp, r)")
  have "resp' = resp"
    using assms [rule_format, of "world st" "(ow, rp, r)" "world st'"] a b by simp
  then have b': "oc' (world st') (ow, rp, r) = (resp, w')"
    using b by simp
  show ?thesis
    using a b'
    by (cases resp)
       (simp_all add: checkReleaseImmutability_def tryGetRelease_def getReleaseByTag_def Let_def
          split: thrown.splits)
qed

lemma thirdPartyLoop_responses:
  assumes "\<forall>w w' rq. fst (oc w rq) = fst (oc' w' rq)"
  shows "fst (thirdPartyLoop oc as c mu im st) = fst (thirdPartyLoop oc' as c mu im st')"
proof (induction as arbitrary: c mu im st st')
  case Nil
  show ?case by simp
next
  case (Cons a as)
  obtain x st1 where r: "checkReleaseImmutability oc (owner a) (repo a) (ref a) (info (checkingLine a) st) = (x, st1)"
    by (cases "checkReleaseImmutability oc (owner a) (repo a) (ref a) (info (checkingLine a) st)")
  obtain x' st1' where r': "checkReleaseImmutability oc' (owner a) (repo a) (ref a) (info (checkingLine a) st') = (x', st1')"
    by (cases "checkReleaseImmutability oc' (owner a) (repo a) (ref a) (info (checkingLine a) st')")
  have same: "x' = x"
    using checkReleaseImmutability_responses [OF assms, of "owner a" "repo a" "ref a" "info (checkingLine a) st" "info (checkingLine a) st'"]
      r r' by simp
  show ?case
  proof (cases x)
    case (Inl err)
    then show ?thesis using r r' same by simp
  next
    case (Inr res)
    show ?thesis
    proof (cases "immutable res")
      case True
      then show ?thesis
        using r r' same Inr Cons.IH [of "map_set c (uses a) res" mu _ st1 st1'] by simp
    next
      case False
      then show ?thesis
        using r r' same Inr Cons.IH [of "map_set c (uses a) res" _ im st1 st1'] by simp
    qed
  qed
qed

text \<open>
  C9. Two aggregations of the same list, from any two states and with collaborators that
  answer every request alike whatever their own state, give the same result: the same
  report, or the same error. A collaborator whose answers are constant is one case, run
  twice in a row.
\<close>

theorem checkAllActions_deterministic:
  assumes "\<forall>w w' rq. fst (oc w rq) = fst (oc' w' rq)"
  shows "fst (checkAllActions oc actions st) = fst (checkAllActions oc' actions st')"
proof -
  let ?U = "uniqueByUses (filter (\<lambda>a. \<not> isFirstParty a) actions)"
  let ?C = "foldl (\<lambda>m (k, v). map_set m k v) []
              (map (\<lambda>a. (uses a, firstPartyOutcome)) (uniqueByUses (filter (\<lambda>a. isFirstParty a) actions)))"
  obtain x st1 where a: "thirdPartyLoop oc ?U ?C [] [] st = (x, st1)"
    by (cases "thirdPartyLoop oc ?U ?C [] [] st")
  obtain x' st1' where b: "thirdPartyLoop oc' ?U ?C [] [] st' = (x', st1')"
    by (cases "thirdPartyLoop oc' ?U ?C [] [] st'")
  have "x' = x"
    using thirdPartyLoop_responses [OF assms, of ?U ?C "[]" "[]" st st'] a b by simp
  then show ?thesis
    unfolding checkAllActions_def Let_def firstPartyLoop_eq
    using a b by (simp split: sum.splits prod.splits)
qed

theorem checkAllActions_deterministic_witness:
  "fst (checkAllActions notFound [checkout, refV1, refV1_deploy] st0)
     = fst (checkAllActions notFound [checkout, refV1, refV1_deploy] (st0\<lparr>requests := [(''a'', ''b'', ''c'')]\<rparr>))"
  using checkAllActions_deterministic [of notFound notFound "[checkout, refV1, refV1_deploy]" st0 "st0\<lparr>requests := [(''a'', ''b'', ''c'')]\<rparr>"]
  by (simp add: notFound_def)

section \<open>The examples\<close>

lemmas example_defs = refV1_def refV1_again_def checkout_def refV1_deploy_def

lemma examples_asExtracted:
  "asExtracted checkout" "asExtracted refV1" "asExtracted refV1_again" "asExtracted refV1_deploy"
  by (simp_all add: asExtracted_def example_defs parseActionReference_string actionPattern_eq
        repo_part_def tail_ref_def rx_dot_def shouldExcludeAction_def numeral_2_eq_2)

lemma examples_files:
  "\<forall>a\<in>set [checkout, refV1, refV1_again, refV1_deploy]. workflowFile a \<notin> set objectPrototypeKeys"
  by (simp add: example_defs objectPrototypeKeys_def)

lemma examples_unique:
  "uniqueByUses (filter (\<lambda>a. \<not> isFirstParty a) [checkout, refV1, refV1_again, refV1_deploy]) = [refV1_deploy]"
  by (simp add: uniqueByUses_def new_Map_def map_values_def example_defs)

section \<open>Counting entries and requests\<close>

lemma asExtracted_same:
  assumes "asExtracted a" and "asExtracted b" and "uses a = uses b"
  shows "owner a = owner b \<and> repo a = repo b \<and> ref a = ref b \<and> isFirstParty a = isFirstParty b"
  using assms unfolding asExtracted_def by auto

lemma count_split:
  "length (filter Q (filter P xs)) + length (filter Q (filter (\<lambda>x. \<not> P x) xs)) = length (filter Q xs)"
  by (induction xs) auto

lemma count_uses_map:
  assumes "\<And>x. uses (g x) = k x"
  shows "length (filter (\<lambda>e. uses e = u) (map g xs)) = length (filter (\<lambda>x. k x = u) xs)"
  by (induction xs) (simp_all add: assms)

lemma count_fileLists:
  "length (filter (\<lambda>e. uses e = u)
     (mutable_actions (fileLists c as) @ immutable_actions (fileLists c as) @ firstParty_actions (fileLists c as)))
   = length (filter (\<lambda>a. uses a = u) as)"
  by (induction as) (simp_all add: fileLists_def fileInfo_def)

lemma count_resolved:
  "length (filter (\<lambda>e. uses e = u)
     (map thirdPartyInfo (filter (\<lambda>(a, r). \<not> immutable r) (resolved oc actions st))
      @ map thirdPartyInfo (filter (\<lambda>(a, r). immutable r) (resolved oc actions st))))
   = length (filter (\<lambda>a. uses a = u) (thirdPartyUnique actions))"
proof -
  let ?zs = "resolved oc actions st"
  have m: "length (filter (\<lambda>e. uses e = u) (map thirdPartyInfo ys)) = length (filter (\<lambda>x. uses (fst x) = u) ys)" for ys
    by (rule count_uses_map) (simp add: thirdPartyInfo_def)
  have k: "length (filter (\<lambda>x. uses (fst x) = u) ys) = length (filter (\<lambda>a. uses a = u) (map fst ys))"
    for ys :: "(action \<times> outcome) list"
    by (induction ys) auto
  have f: "map fst ?zs = thirdPartyUnique actions"
    unfolding resolved_def by (simp add: length_resolutions)
  have "length (filter (\<lambda>e. uses e = u)
     (map thirdPartyInfo (filter (\<lambda>(a, r). \<not> immutable r) ?zs) @ map thirdPartyInfo (filter (\<lambda>(a, r). immutable r) ?zs)))
     = length (filter (\<lambda>x. uses (fst x) = u) (filter (\<lambda>x. immutable (snd x)) ?zs))
       + length (filter (\<lambda>x. uses (fst x) = u) (filter (\<lambda>x. \<not> immutable (snd x)) ?zs))"
    by (simp only: filter_append length_append m case_prod_unfold add.commute)
  also have "\<dots> = length (filter (\<lambda>x. uses (fst x) = u) ?zs)"
    by (rule count_split)
  also have "\<dots> = length (filter (\<lambda>a. uses a = u) (thirdPartyUnique actions))"
    by (simp only: k f)
  finally show ?thesis .
qed

text \<open>
  For a list of entries as the extraction builds them and a report that is returned: the
  resolver is called for the entries of the list of unique third-party actions, one line
  of information each, and that list holds a specifier \<open>u\<close> at most once; the remote
  service receives one request for each of those entries whose ref is not a full SHA and
  no other; the three flat lists together hold exactly one entry for \<open>u\<close> when \<open>u\<close>
  occurs in the input; and the lists of a workflow file hold exactly one entry for \<open>u\<close>
  when that file referenced \<open>u\<close>, none otherwise, every file of the input having its
  lists.
\<close>

lemma checkAllActions_counts:
  assumes "\<forall>a\<in>set actions. asExtracted a"
    and "checkAllActions oc actions st = (Inr rep, st')"
  shows "infos st' = infos st @ map checkingLine (uniqueByUses (filter (\<lambda>a. \<not> isFirstParty a) actions))"
    and "requests st' = requests st
          @ map (\<lambda>a. (owner a, repo a, ref a))
              (filter (\<lambda>a. \<not> isFullSHA (ref a)) (uniqueByUses (filter (\<lambda>a. \<not> isFirstParty a) actions)))"
    and "length (filter (\<lambda>a. uses a = u) (uniqueByUses (filter (\<lambda>a. \<not> isFirstParty a) actions))) \<le> 1"
    and "length (filter (\<lambda>e. uses e = u) (mutable_actions rep @ immutable_actions rep @ firstParty_actions rep))
          = (if u \<in> uses ` set actions then 1 else 0)"
    and "\<forall>f. case byWorkflow rep f of
               None \<Rightarrow> f \<notin> workflowFile ` set actions
             | Some ls \<Rightarrow>
                 length (filter (\<lambda>e. uses e = u) (mutable_actions ls @ immutable_actions ls @ firstParty_actions ls))
                   = (if \<exists>a\<in>set actions. workflowFile a = f \<and> uses a = u then 1 else 0)"
proof -
  let ?tp = "uniqueByUses (filter (\<lambda>a. \<not> isFirstParty a) actions)"
  let ?fp = "uniqueByUses (filter (\<lambda>a. isFirstParty a) actions)"
  note ret = checkAllActions_returned [OF assms(2)]
  have tp_count: "length (filter (\<lambda>a. uses a = u) ?tp) = (if u \<in> uses ` set (filter (\<lambda>a. \<not> isFirstParty a) actions) then 1 else 0)"
    using count_distinct_key [OF distinct_uses_uniqueByUses, of u "filter (\<lambda>a. \<not> isFirstParty a) actions"]
    by (simp only: set_uses_uniqueByUses)
  have fp_count: "length (filter (\<lambda>a. uses a = u) ?fp) = (if u \<in> uses ` set (filter (\<lambda>a. isFirstParty a) actions) then 1 else 0)"
    using count_distinct_key [OF distinct_uses_uniqueByUses, of u "filter (\<lambda>a. isFirstParty a) actions"]
    by (simp only: set_uses_uniqueByUses)
  have excl: "\<not> (u \<in> uses ` set (filter (\<lambda>a. \<not> isFirstParty a) actions) \<and> u \<in> uses ` set (filter (\<lambda>a. isFirstParty a) actions))"
  proof
    assume "u \<in> uses ` set (filter (\<lambda>a. \<not> isFirstParty a) actions) \<and> u \<in> uses ` set (filter (\<lambda>a. isFirstParty a) actions)"
    then obtain a b where "a \<in> set actions" "\<not> isFirstParty a" "uses a = u" "b \<in> set actions" "isFirstParty b" "uses b = u"
      by auto
    then show False
      using assms(1) asExtracted_same [of a b] by auto
  qed
  have either: "u \<in> uses ` set actions \<longleftrightarrow>
      u \<in> uses ` set (filter (\<lambda>a. \<not> isFirstParty a) actions) \<or> u \<in> uses ` set (filter (\<lambda>a. isFirstParty a) actions)"
    by auto
  have fp_flat: "length (filter (\<lambda>e. uses e = u) (map firstPartyInfo ?fp)) = length (filter (\<lambda>a. uses a = u) ?fp)"
    by (rule count_uses_map) (simp add: firstPartyInfo_def)
  have flat: "length (filter (\<lambda>e. uses e = u)
        (map thirdPartyInfo (filter (\<lambda>(a, r). \<not> immutable r) (resolved oc actions st))
         @ map thirdPartyInfo (filter (\<lambda>(a, r). immutable r) (resolved oc actions st))
         @ map firstPartyInfo (firstPartyUnique actions)))
      = (if u \<in> uses ` set actions then 1 else 0)"
    using count_resolved [of u oc actions st] fp_flat tp_count fp_count excl either
    by (simp add: thirdPartyUnique_def firstPartyUnique_def)
  have perfile: "case fileReport oc actions st f of
               None \<Rightarrow> f \<notin> workflowFile ` set actions
             | Some ls \<Rightarrow>
                 length (filter (\<lambda>e. uses e = u) (mutable_actions ls @ immutable_actions ls @ firstParty_actions ls))
                   = (if \<exists>a\<in>set actions. workflowFile a = f \<and> uses a = u then 1 else 0)" for f
  proof (cases "f \<in> workflowFile ` set actions")
    case False
    then show ?thesis by (simp add: fileReport_def)
  next
    case True
    have "length (filter (\<lambda>a. uses a = u) (uniqueByUses (filter (\<lambda>a. workflowFile a = f) actions)))
            = (if u \<in> uses ` set (filter (\<lambda>a. workflowFile a = f) actions) then 1 else 0)"
      using count_distinct_key [OF distinct_uses_uniqueByUses, of u "filter (\<lambda>a. workflowFile a = f) actions"]
      by (simp only: set_uses_uniqueByUses)
    moreover have "u \<in> uses ` set (filter (\<lambda>a. workflowFile a = f) actions)
                     \<longleftrightarrow> (\<exists>a\<in>set actions. workflowFile a = f \<and> uses a = u)"
      by auto
    moreover have rep: "fileReport oc actions st f
        = Some (fileLists (finalCache oc actions st) (uniqueByUses (filter (\<lambda>a. workflowFile a = f) actions)))"
      using True by (simp add: fileReport_def)
    ultimately show ?thesis
      unfolding rep option.case count_fileLists by simp
  qed
  show "infos st' = infos st @ map checkingLine ?tp"
    unfolding ret(2) by (simp add: afterResolutions_infos thirdPartyUnique_def)
  show "requests st' = requests st
          @ map (\<lambda>a. (owner a, repo a, ref a)) (filter (\<lambda>a. \<not> isFullSHA (ref a)) ?tp)"
    unfolding ret(2) by (simp add: afterResolutions_requests thirdPartyUnique_def)
  show "length (filter (\<lambda>a. uses a = u) ?tp) \<le> 1"
    using tp_count by simp
  show "length (filter (\<lambda>e. uses e = u) (mutable_actions rep @ immutable_actions rep @ firstParty_actions rep))
          = (if u \<in> uses ` set actions then 1 else 0)"
    unfolding ret(1) using flat by simp
  show "\<forall>f. case byWorkflow rep f of
               None \<Rightarrow> f \<notin> workflowFile ` set actions
             | Some ls \<Rightarrow>
                 length (filter (\<lambda>e. uses e = u) (mutable_actions ls @ immutable_actions ls @ firstParty_actions ls))
                   = (if \<exists>a\<in>set actions. workflowFile a = f \<and> uses a = u then 1 else 0)"
    unfolding ret(1) using perfile by simp
qed

text \<open>
  C1: one call of the resolver at most, one entry in the flat lists and one in the lists
  of each file that referenced it, for every specifier of the input. This fails on a
  workflow file named like a property of \<^verbatim>\<open>Object.prototype\<close>. For one reference in a
  file named \<open>constructor\<close> the resolver is called and its request sent, and then the
  grouping by workflow throws: the aggregation returns no flat lists and no lists of the
  file, where C1 has one entry for the specifier in each.
\<close>

theorem checkAllActions_constructor_file:
  "checkAllActions notFound [refV1_constructor] st0
     = (Inl (typeError ''actionsByWorkflow[workflowFile].push is not a function''),
        st0\<lparr>requests := [(''owner'', ''repo'', ''v1'')], infos := [''Checking owner/repo@v1...'']\<rparr>)"
  by (simp add: checkAllActions_def uniqueByUses_def new_Map_def map_values_def refV1_constructor_def
        checkReleaseImmutability_def isFullSHA_iff tryGetRelease_def getReleaseByTag_def notFound_def
        info_def checkingLine_def map_get_def objectPrototypeKeys_def st0_def)

section \<open>First-party entries\<close>

lemma map_of_rev_const:
  "map_of (rev (map (\<lambda>a. (f a, v)) xs)) k = (if k \<in> f ` set xs then Some v else None)"
  by (induction xs) (auto simp: map_add_def split: option.splits)

lemma keys_thirdParty_entries:
  "fst ` set (map (\<lambda>(a, r). (uses a, r)) (resolved oc actions st))
     = uses ` set (filter (\<lambda>a. \<not> isFirstParty a) actions)"
proof -
  let ?tp = "map (\<lambda>(a, r). (uses a, r)) (resolved oc actions st)"
  have "map fst ?tp = map uses (thirdPartyUnique actions)"
    using keys_resolved [of oc actions st] by (simp add: comp_def case_prod_unfold)
  then have "fst ` set ?tp = uses ` set (thirdPartyUnique actions)"
    by (metis list.set_map)
  also have "\<dots> = uses ` set (filter (\<lambda>a. \<not> isFirstParty a) actions)"
    unfolding thirdPartyUnique_def by (rule set_uses_uniqueByUses)
  finally show ?thesis .
qed

lemma finalCache_firstParty:
  assumes "\<forall>a\<in>set actions. asExtracted a" and "a \<in> set actions" and "isFirstParty a"
  shows "map_get (finalCache oc actions st) (uses a) = Some firstPartyOutcome"
proof -
  let ?tp = "map (\<lambda>(a, r). (uses a, r)) (resolved oc actions st)"
  let ?fp = "map (\<lambda>a. (uses a, firstPartyOutcome)) (firstPartyUnique actions)"
  have "uses a \<notin> uses ` set (filter (\<lambda>a. \<not> isFirstParty a) actions)"
  proof
    assume "uses a \<in> uses ` set (filter (\<lambda>a. \<not> isFirstParty a) actions)"
    then obtain b where "b \<in> set actions" "\<not> isFirstParty b" "uses b = uses a" by auto
    then show False using assms asExtracted_same [of a b] by auto
  qed
  then have "uses a \<notin> fst ` set (rev ?tp)"
    using keys_thirdParty_entries [of oc actions st] by simp
  then have tp: "map_of (rev ?tp) (uses a) = None"
    by (rule iffD2 [OF map_of_eq_None_iff])
  have "uses a \<in> uses ` set (firstPartyUnique actions)"
    unfolding firstPartyUnique_def set_uses_uniqueByUses using assms(2,3) by auto
  then have fp: "map_of (rev ?fp) (uses a) = Some firstPartyOutcome"
    by (simp only: map_of_rev_const if_True)
  show ?thesis
    unfolding map_get_def finalCache_def map_of_fold_map_set
    using tp fp by (simp add: map_add_def)
qed

lemma examples_returned:
  "\<exists>rep st'. checkAllActions notFound [checkout, refV1, refV1_again, refV1_deploy] st0 = (Inr rep, st')"
proof -
  have "\<forall>w rq. \<not> nullish (fst (notFound w rq))"
    by (simp add: notFound_def nullish_def)
  then have "resolves notFound (thirdPartyUnique [checkout, refV1, refV1_again, refV1_deploy]) st0"
    by (rule resolves_if)
  then show ?thesis
    using examples_files checkAllActions_returns_iff [of notFound "[checkout, refV1, refV1_again, refV1_deploy]" st0]
    by blast
qed

text \<open>
  C7. For a list of entries as the extraction builds them: whether the aggregation
  returns or throws, no request the remote service receives from it is for an exempt
  owner; and in the report it returns, every reference with an exempt owner has an entry
  with its specifier, owner, repository name and ref in the flat first-party list and in
  the first-party list of its workflow file, and none in the other lists, flat or of that
  file; every entry of a first-party list, flat or of a workflow file, has an exempt
  owner, the first-party flag and the result immutable, no release found, ``First-party
  action''; and no entry of the other lists has an exempt owner.
\<close>

theorem checkAllActions_first_party:
  assumes "\<forall>a\<in>set actions. asExtracted a"
  shows "(\<exists>new. requests (snd (checkAllActions oc actions st)) = requests st @ new
            \<and> (\<forall>rq\<in>set new. \<not> shouldExcludeAction (fst rq)))
     \<and> (\<forall>rep st'. checkAllActions oc actions st = (Inr rep, st') \<longrightarrow>
          (\<forall>a\<in>set actions. shouldExcludeAction (owner a) \<longrightarrow>
              (\<exists>e\<in>set (firstParty_actions rep).
                  uses e = uses a \<and> owner e = owner a \<and> repo e = repo a \<and> ref e = ref a)
              \<and> uses a \<notin> uses ` set (mutable_actions rep @ immutable_actions rep)
              \<and> (\<exists>ls. byWorkflow rep (workflowFile a) = Some ls
                    \<and> (\<exists>e\<in>set (firstParty_actions ls).
                          uses e = uses a \<and> owner e = owner a \<and> repo e = repo a \<and> ref e = ref a
                          \<and> inWorkflow e = Some (workflowFile a))
                    \<and> uses a \<notin> uses ` set (mutable_actions ls @ immutable_actions ls)))
          \<and> (\<forall>e\<in>set (firstParty_actions rep). shouldExcludeAction (owner e) \<and> isFirstParty e
                \<and> result e = Some \<lparr>immutable = True, releaseFound = False, message = ''First-party action''\<rparr>)
          \<and> (\<forall>e\<in>set (mutable_actions rep @ immutable_actions rep). \<not> shouldExcludeAction (owner e))
          \<and> (\<forall>f ls. byWorkflow rep f = Some ls \<longrightarrow>
                (\<forall>e\<in>set (firstParty_actions ls). shouldExcludeAction (owner e) \<and> isFirstParty e
                   \<and> result e = Some \<lparr>immutable = True, releaseFound = False, message = ''First-party action''\<rparr>)
                \<and> (\<forall>e\<in>set (mutable_actions ls @ immutable_actions ls). \<not> shouldExcludeAction (owner e))))"
proof (rule conjI)
  have flag: "isFirstParty a = shouldExcludeAction (owner a)" if "a \<in> set actions" for a
    using assms that by (simp add: asExtracted_def)
  have tp_sub: "set (thirdPartyUnique actions) \<subseteq> {a \<in> set actions. \<not> isFirstParty a}"
    unfolding thirdPartyUnique_def using set_uniqueByUses_subset [of "filter (\<lambda>a. \<not> isFirstParty a) actions"] by auto
  obtain new where new: "requests (snd (checkAllActions oc actions st)) = requests st @ new"
      "set new \<subseteq> (\<lambda>a. (owner a, repo a, ref a)) ` set (thirdPartyUnique actions)"
    using checkAllActions_requests [of oc actions st] by blast
  have "\<not> shouldExcludeAction (fst rq)" if rq: "rq \<in> set new" for rq
  proof -
    obtain a where "a \<in> set (thirdPartyUnique actions)" "rq = (owner a, repo a, ref a)"
      using rq new(2) by auto
    then show ?thesis using tp_sub flag [of a] by auto
  qed
  then show "\<exists>new. requests (snd (checkAllActions oc actions st)) = requests st @ new
            \<and> (\<forall>rq\<in>set new. \<not> shouldExcludeAction (fst rq))"
    using new(1) by blast
next
  show "\<forall>rep st'. checkAllActions oc actions st = (Inr rep, st') \<longrightarrow>
          (\<forall>a\<in>set actions. shouldExcludeAction (owner a) \<longrightarrow>
              (\<exists>e\<in>set (firstParty_actions rep).
                  uses e = uses a \<and> owner e = owner a \<and> repo e = repo a \<and> ref e = ref a)
              \<and> uses a \<notin> uses ` set (mutable_actions rep @ immutable_actions rep)
              \<and> (\<exists>ls. byWorkflow rep (workflowFile a) = Some ls
                    \<and> (\<exists>e\<in>set (firstParty_actions ls).
                          uses e = uses a \<and> owner e = owner a \<and> repo e = repo a \<and> ref e = ref a
                          \<and> inWorkflow e = Some (workflowFile a))
                    \<and> uses a \<notin> uses ` set (mutable_actions ls @ immutable_actions ls)))
          \<and> (\<forall>e\<in>set (firstParty_actions rep). shouldExcludeAction (owner e) \<and> isFirstParty e
                \<and> result e = Some \<lparr>immutable = True, releaseFound = False, message = ''First-party action''\<rparr>)
          \<and> (\<forall>e\<in>set (mutable_actions rep @ immutable_actions rep). \<not> shouldExcludeAction (owner e))
          \<and> (\<forall>f ls. byWorkflow rep f = Some ls \<longrightarrow>
                (\<forall>e\<in>set (firstParty_actions ls). shouldExcludeAction (owner e) \<and> isFirstParty e
                   \<and> result e = Some \<lparr>immutable = True, releaseFound = False, message = ''First-party action''\<rparr>)
                \<and> (\<forall>e\<in>set (mutable_actions ls @ immutable_actions ls). \<not> shouldExcludeAction (owner e)))"
  proof (intro allI impI)
  fix rep st'
  assume returned: "checkAllActions oc actions st = (Inr rep, st')"
  let ?c = "finalCache oc actions st"
  let ?mu = "map thirdPartyInfo (filter (\<lambda>(a, r). \<not> immutable r) (resolved oc actions st))"
  let ?im = "map thirdPartyInfo (filter (\<lambda>(a, r). immutable r) (resolved oc actions st))"
  let ?fp = "map firstPartyInfo (firstPartyUnique actions)"
  note ret = checkAllActions_returned [OF returned]
  have rep_mu: "mutable_actions rep = ?mu" and rep_im: "immutable_actions rep = ?im"
    and rep_fp: "firstParty_actions rep = ?fp" and rep_bw: "byWorkflow rep = fileReport oc actions st"
    unfolding ret(1) by simp_all
  have flag: "isFirstParty a = shouldExcludeAction (owner a)" if "a \<in> set actions" for a
    using assms that by (simp add: asExtracted_def)
  have tp_sub: "set (thirdPartyUnique actions) \<subseteq> {a \<in> set actions. \<not> isFirstParty a}"
    unfolding thirdPartyUnique_def using set_uniqueByUses_subset [of "filter (\<lambda>a. \<not> isFirstParty a) actions"] by auto
  have fp_sub: "set (firstPartyUnique actions) \<subseteq> {a \<in> set actions. isFirstParty a}"
    unfolding firstPartyUnique_def using set_uniqueByUses_subset [of "filter (\<lambda>a. isFirstParty a) actions"] by auto
  have res_sub: "fst ` set (resolved oc actions st) \<subseteq> set (thirdPartyUnique actions)"
    unfolding resolved_def by (auto dest: set_zip_leftD)
  have third: "\<not> shouldExcludeAction (owner e) \<and> uses e \<in> uses ` set (filter (\<lambda>a. \<not> isFirstParty a) actions)"
    if "e \<in> set (?mu @ ?im)" for e
  proof -
    have "e \<in> thirdPartyInfo ` set (resolved oc actions st)"
      using that by auto
    then obtain x where x: "x \<in> set (resolved oc actions st)" "e = thirdPartyInfo x"
      by blast
    then have "fst x \<in> set (thirdPartyUnique actions)"
      using res_sub by blast
    then have "fst x \<in> set actions" "\<not> isFirstParty (fst x)"
      using tp_sub by auto
    moreover have "owner e = owner (fst x)" "uses e = uses (fst x)"
      using x(2) by (simp_all add: thirdPartyInfo_def)
    ultimately show ?thesis using flag [of "fst x"] by auto
  qed
  have first: "shouldExcludeAction (owner e) \<and> isFirstParty e \<and> result e = Some \<lparr>immutable = True, releaseFound = False, message = ''First-party action''\<rparr>"
    if e: "e \<in> set ?fp" for e
  proof -
    obtain a where "a \<in> set (firstPartyUnique actions)" "e = firstPartyInfo a"
      using e by auto
    then show ?thesis
      using fp_sub flag [of a] by (auto simp: firstPartyInfo_def firstPartyOutcome_def)
  qed
  have files: "(\<forall>e\<in>set (firstParty_actions ls). shouldExcludeAction (owner e) \<and> isFirstParty e
              \<and> result e = Some \<lparr>immutable = True, releaseFound = False, message = ''First-party action''\<rparr>)
           \<and> (\<forall>e\<in>set (mutable_actions ls @ immutable_actions ls). \<not> shouldExcludeAction (owner e))"
    if "fileReport oc actions st f = Some ls" for f ls
  proof -
    let ?xs = "uniqueByUses (filter (\<lambda>a. workflowFile a = f) actions)"
    have ls: "ls = fileLists ?c ?xs"
      using that by (auto simp: fileReport_def split: if_splits)
    have xs: "set ?xs \<subseteq> set actions"
      using set_uniqueByUses_subset [of "filter (\<lambda>a. workflowFile a = f) actions"] by auto
    have a: "shouldExcludeAction (owner e) \<and> isFirstParty e \<and> result e = Some \<lparr>immutable = True, releaseFound = False, message = ''First-party action''\<rparr>"
      if e: "e \<in> set (firstParty_actions ls)" for e
    proof -
      obtain a where a: "a \<in> set ?xs" "isFirstParty a" "e = fileInfo ?c a"
        using e unfolding ls fileLists_def by auto
      then have "a \<in> set actions" using xs by auto
      then show ?thesis
        using a flag [of a] finalCache_firstParty [OF assms, of a oc st]
        by (simp add: fileInfo_def firstPartyOutcome_def)
    qed
    have b: "\<not> shouldExcludeAction (owner e)" if e: "e \<in> set (mutable_actions ls @ immutable_actions ls)" for e
    proof -
      obtain a where a: "a \<in> set ?xs" "\<not> isFirstParty a" "e = fileInfo ?c a"
        using e unfolding ls fileLists_def by auto
      then have "a \<in> set actions" using xs by auto
      then show ?thesis using a flag [of a] by (simp add: fileInfo_def)
    qed
    show ?thesis using a b by blast
  qed
  have B: "\<forall>e\<in>set (firstParty_actions rep). shouldExcludeAction (owner e) \<and> isFirstParty e \<and> result e = Some \<lparr>immutable = True, releaseFound = False, message = ''First-party action''\<rparr>"
    unfolding rep_fp using first by blast
  have C: "\<forall>e\<in>set (mutable_actions rep @ immutable_actions rep). \<not> shouldExcludeAction (owner e)"
    unfolding rep_mu rep_im using third by blast
  have D: "\<forall>f ls. byWorkflow rep f = Some ls \<longrightarrow>
                (\<forall>e\<in>set (firstParty_actions ls). shouldExcludeAction (owner e) \<and> isFirstParty e
                   \<and> result e = Some \<lparr>immutable = True, releaseFound = False, message = ''First-party action''\<rparr>)
                \<and> (\<forall>e\<in>set (mutable_actions ls @ immutable_actions ls). \<not> shouldExcludeAction (owner e))"
    unfolding rep_bw using files by blast
  have A: "\<forall>a\<in>set actions. shouldExcludeAction (owner a) \<longrightarrow>
              (\<exists>e\<in>set (firstParty_actions rep).
                  uses e = uses a \<and> owner e = owner a \<and> repo e = repo a \<and> ref e = ref a)
              \<and> uses a \<notin> uses ` set (mutable_actions rep @ immutable_actions rep)
              \<and> (\<exists>ls. byWorkflow rep (workflowFile a) = Some ls
                    \<and> (\<exists>e\<in>set (firstParty_actions ls).
                          uses e = uses a \<and> owner e = owner a \<and> repo e = repo a \<and> ref e = ref a
                          \<and> inWorkflow e = Some (workflowFile a))
                    \<and> uses a \<notin> uses ` set (mutable_actions ls @ immutable_actions ls))"
  proof (intro ballI impI conjI)
    fix a
    assume a: "a \<in> set actions" and ex: "shouldExcludeAction (owner a)"
    have fp: "isFirstParty a" using a ex flag by simp
    have other: False if "b \<in> set actions" "\<not> isFirstParty b" "uses b = uses a" for b
      using that assms a fp asExtracted_same [of a b] by auto
    have same: "owner b = owner a \<and> repo b = repo a \<and> ref b = ref a \<and> isFirstParty b"
      if "b \<in> set actions" "uses b = uses a" for b
      using that assms a fp asExtracted_same [of a b] by auto
    show "\<exists>e\<in>set (firstParty_actions rep). uses e = uses a \<and> owner e = owner a \<and> repo e = repo a \<and> ref e = ref a"
    proof -
      have "uses a \<in> uses ` set (filter (\<lambda>a. isFirstParty a) actions)"
        using a fp by auto
      then have "uses a \<in> uses ` set (firstPartyUnique actions)"
        unfolding firstPartyUnique_def set_uses_uniqueByUses .
      then obtain b where b: "b \<in> set (firstPartyUnique actions)" "uses b = uses a"
        by auto
      then have "b \<in> set actions" using fp_sub by auto
      then have "owner b = owner a \<and> repo b = repo a \<and> ref b = ref a"
        using same b(2) by blast
      then have "uses (firstPartyInfo b) = uses a \<and> owner (firstPartyInfo b) = owner a
                   \<and> repo (firstPartyInfo b) = repo a \<and> ref (firstPartyInfo b) = ref a"
        using b(2) by (simp add: firstPartyInfo_def)
      moreover have "firstPartyInfo b \<in> set (firstParty_actions rep)"
        unfolding rep_fp using b(1) by simp
      ultimately show ?thesis by blast
    qed
    show "uses a \<notin> uses ` set (mutable_actions rep @ immutable_actions rep)"
    proof
      assume "uses a \<in> uses ` set (mutable_actions rep @ immutable_actions rep)"
      then obtain e where e: "e \<in> set (?mu @ ?im)" "uses a = uses e"
        unfolding rep_mu rep_im by blast
      then have "uses a \<in> uses ` set (filter (\<lambda>a. \<not> isFirstParty a) actions)"
        using third [of e] by simp
      then obtain b where "b \<in> set actions" "\<not> isFirstParty b" "uses b = uses a"
        by auto
      then show False by (rule other)
    qed
    let ?xs = "uniqueByUses (filter (\<lambda>b. workflowFile b = workflowFile a) actions)"
    let ?ls = "fileLists ?c ?xs"
    have xs: "set ?xs \<subseteq> {b \<in> set actions. workflowFile b = workflowFile a}"
      using set_uniqueByUses_subset [of "filter (\<lambda>b. workflowFile b = workflowFile a) actions"] by auto
    have bw: "byWorkflow rep (workflowFile a) = Some ?ls"
      unfolding rep_bw using a by (simp add: fileReport_def)
    have present: "\<exists>e\<in>set (firstParty_actions ?ls).
                          uses e = uses a \<and> owner e = owner a \<and> repo e = repo a \<and> ref e = ref a
                          \<and> inWorkflow e = Some (workflowFile a)"
    proof -
      have "uses a \<in> uses ` set (filter (\<lambda>b. workflowFile b = workflowFile a) actions)"
        using a by auto
      then have "uses a \<in> uses ` set ?xs"
        unfolding set_uses_uniqueByUses .
      then obtain b where b: "b \<in> set ?xs" "uses b = uses a"
        by auto
      then have b': "b \<in> set actions" "workflowFile b = workflowFile a" using xs by auto
      then have sb: "owner b = owner a \<and> repo b = repo a \<and> ref b = ref a \<and> isFirstParty b"
        using same b(2) by blast
      then have "fileInfo ?c b \<in> set (firstParty_actions ?ls)"
        using b(1) by (simp add: fileLists_def)
      moreover have "uses (fileInfo ?c b) = uses a \<and> owner (fileInfo ?c b) = owner a
                   \<and> repo (fileInfo ?c b) = repo a \<and> ref (fileInfo ?c b) = ref a
                   \<and> inWorkflow (fileInfo ?c b) = Some (workflowFile a)"
        using b(2) b'(2) sb by (simp add: fileInfo_def)
      ultimately show ?thesis by blast
    qed
    have absent: "uses a \<notin> uses ` set (mutable_actions ?ls @ immutable_actions ?ls)"
    proof
      assume "uses a \<in> uses ` set (mutable_actions ?ls @ immutable_actions ?ls)"
      then obtain b where b: "b \<in> set ?xs" "\<not> isFirstParty b" "uses (fileInfo ?c b) = uses a"
        unfolding fileLists_def by auto
      then have "b \<in> set actions" using xs by auto
      moreover have "uses b = uses a" using b(3) by (simp add: fileInfo_def)
      ultimately show False using b(2) by (intro other [of b])
    qed
    show "\<exists>ls. byWorkflow rep (workflowFile a) = Some ls
                    \<and> (\<exists>e\<in>set (firstParty_actions ls).
                          uses e = uses a \<and> owner e = owner a \<and> repo e = repo a \<and> ref e = ref a
                          \<and> inWorkflow e = Some (workflowFile a))
                    \<and> uses a \<notin> uses ` set (mutable_actions ls @ immutable_actions ls)"
      using bw present absent by blast
  qed
  show "(\<forall>a\<in>set actions. shouldExcludeAction (owner a) \<longrightarrow>
              (\<exists>e\<in>set (firstParty_actions rep).
                  uses e = uses a \<and> owner e = owner a \<and> repo e = repo a \<and> ref e = ref a)
              \<and> uses a \<notin> uses ` set (mutable_actions rep @ immutable_actions rep)
              \<and> (\<exists>ls. byWorkflow rep (workflowFile a) = Some ls
                    \<and> (\<exists>e\<in>set (firstParty_actions ls).
                          uses e = uses a \<and> owner e = owner a \<and> repo e = repo a \<and> ref e = ref a
                          \<and> inWorkflow e = Some (workflowFile a))
                    \<and> uses a \<notin> uses ` set (mutable_actions ls @ immutable_actions ls)))
          \<and> (\<forall>e\<in>set (firstParty_actions rep). shouldExcludeAction (owner e) \<and> isFirstParty e
                \<and> result e = Some \<lparr>immutable = True, releaseFound = False, message = ''First-party action''\<rparr>)
          \<and> (\<forall>e\<in>set (mutable_actions rep @ immutable_actions rep). \<not> shouldExcludeAction (owner e))
          \<and> (\<forall>f ls. byWorkflow rep f = Some ls \<longrightarrow>
                (\<forall>e\<in>set (firstParty_actions ls). shouldExcludeAction (owner e) \<and> isFirstParty e
                   \<and> result e = Some \<lparr>immutable = True, releaseFound = False, message = ''First-party action''\<rparr>)
                \<and> (\<forall>e\<in>set (mutable_actions ls @ immutable_actions ls). \<not> shouldExcludeAction (owner e)))"
    using A B C D by (intro conjI)
  qed
qed

theorem checkAllActions_first_party_witness:
  "\<exists>rep st'. checkAllActions notFound [checkout, refV1, refV1_again, refV1_deploy] st0 = (Inr rep, st')
     \<and> (\<exists>e\<in>set (firstParty_actions rep). uses e = ''actions/checkout@v4''
            \<and> result e = Some \<lparr>immutable = True, releaseFound = False, message = ''First-party action''\<rparr>)
     \<and> ''actions/checkout@v4'' \<notin> uses ` set (mutable_actions rep @ immutable_actions rep)
     \<and> (\<exists>ls. byWorkflow rep ''ci.yml'' = Some ls
            \<and> (\<exists>e\<in>set (firstParty_actions ls). uses e = ''actions/checkout@v4''
                  \<and> inWorkflow e = Some ''ci.yml''
                  \<and> result e = Some \<lparr>immutable = True, releaseFound = False, message = ''First-party action''\<rparr>)
            \<and> ''actions/checkout@v4'' \<notin> uses ` set (mutable_actions ls @ immutable_actions ls))"
proof -
  let ?acts = "[checkout, refV1, refV1_again, refV1_deploy]"
  have h1: "\<forall>a\<in>set ?acts. asExtracted a"
    using examples_asExtracted by simp
  have ex: "shouldExcludeAction (owner checkout)"
    by (simp add: checkout_def shouldExcludeAction_def)
  have u: "uses checkout = ''actions/checkout@v4''" and f: "workflowFile checkout = ''ci.yml''"
    by (simp_all add: checkout_def)
  obtain rep st' where run: "checkAllActions notFound ?acts st0 = (Inr rep, st')"
    using examples_returned by blast
  note inst = checkAllActions_first_party [OF h1, of notFound st0, THEN conjunct2, rule_format, OF run]
  have cover: "(\<exists>e\<in>set (firstParty_actions rep). uses e = uses checkout \<and> owner e = owner checkout
                    \<and> repo e = repo checkout \<and> ref e = ref checkout)
              \<and> uses checkout \<notin> uses ` set (mutable_actions rep @ immutable_actions rep)
              \<and> (\<exists>ls. byWorkflow rep (workflowFile checkout) = Some ls
                    \<and> (\<exists>e\<in>set (firstParty_actions ls).
                          uses e = uses checkout \<and> owner e = owner checkout \<and> repo e = repo checkout
                          \<and> ref e = ref checkout \<and> inWorkflow e = Some (workflowFile checkout))
                    \<and> uses checkout \<notin> uses ` set (mutable_actions ls @ immutable_actions ls))"
    using inst [THEN conjunct1] ex by simp
  have flat: "\<forall>e\<in>set (firstParty_actions rep). result e = Some \<lparr>immutable = True, releaseFound = False, message = ''First-party action''\<rparr>"
    using inst [THEN conjunct2, THEN conjunct1] by blast
  have files: "\<forall>f ls. byWorkflow rep f = Some ls \<longrightarrow>
                (\<forall>e\<in>set (firstParty_actions ls). result e = Some \<lparr>immutable = True, releaseFound = False, message = ''First-party action''\<rparr>)"
    using inst [THEN conjunct2, THEN conjunct2, THEN conjunct2] by blast
  show ?thesis
    using run cover flat files unfolding u f by blast
qed

section \<open>Deduplication: the first position, the last value\<close>

lemma resolved_fst: "fst ` set (resolved oc actions st) \<subseteq> set (thirdPartyUnique actions)"
  unfolding resolved_def by (auto dest: set_zip_leftD)

lemma checkAllActions_flat:
  assumes "checkAllActions oc actions st = (Inr rep, st')"
  shows "mutable_actions rep = map thirdPartyInfo (filter (\<lambda>(a, r). \<not> immutable r) (resolved oc actions st))"
    and "immutable_actions rep = map thirdPartyInfo (filter (\<lambda>(a, r). immutable r) (resolved oc actions st))"
    and "firstParty_actions rep = map firstPartyInfo (firstPartyUnique actions)"
    and "st' = afterResolutions oc (thirdPartyUnique actions) st"
  unfolding checkAllActions_returned(1) [OF assms] checkAllActions_returned(2) [OF assms]
  by simp_all

lemma entries_in_order:
  "map uses (map thirdPartyInfo (resolved oc actions st))
     = firstOccurrences (map uses (filter (\<lambda>a. \<not> isFirstParty a) actions))"
proof -
  have "map uses (map thirdPartyInfo (resolved oc actions st)) = map (\<lambda>(a, r). uses a) (resolved oc actions st)"
    by (simp add: thirdPartyInfo_def case_prod_unfold)
  then show ?thesis
    by (simp only: keys_resolved thirdPartyUnique_def uses_uniqueByUses)
qed

lemma split_by_entryImmutable:
  "map thirdPartyInfo (filter (\<lambda>(a, r). \<not> immutable r) zs) = filter (\<lambda>e. \<not> entryImmutable e) (map thirdPartyInfo zs)"
  "map thirdPartyInfo (filter (\<lambda>(a, r). immutable r) zs) = filter entryImmutable (map thirdPartyInfo zs)"
  by (induction zs) (auto simp: entryImmutable_def thirdPartyInfo_def)

text \<open>
  C6, as amended. Deduplication keeps one entry for each key, at the position of the
  key's first occurrence, and the entry kept is the key's last occurrence in the list.
  In the report the aggregation returns, the flat lists follow the order of first
  occurrence: the first-party list key by key, the mutable and the immutable list as the
  two parts of one list that does. For entries as the extraction builds them, owner,
  repository name, ref and first-party flag of every flat entry are those of the first
  occurrence of its key in the input.
\<close>

theorem uniqueByUses_first_position_last_value:
  "map uses (uniqueByUses xs) = firstOccurrences (map uses xs)
   \<and> (\<forall>a\<in>set (uniqueByUses xs). a = last (filter (\<lambda>b. uses b = uses a) xs))
   \<and> (\<forall>rep st'. checkAllActions oc actions st = (Inr rep, st') \<longrightarrow>
          map uses (firstParty_actions rep) = firstOccurrences (map uses (filter (\<lambda>a. isFirstParty a) actions))
          \<and> (\<exists>ents. map uses ents = firstOccurrences (map uses (filter (\<lambda>a. \<not> isFirstParty a) actions))
                \<and> mutable_actions rep = filter (\<lambda>e. \<not> entryImmutable e) ents
                \<and> immutable_actions rep = filter entryImmutable ents)
          \<and> ((\<forall>a\<in>set actions. asExtracted a) \<longrightarrow>
                (\<forall>e\<in>set (mutable_actions rep @ immutable_actions rep @ firstParty_actions rep).
                    owner e = owner (hd (filter (\<lambda>b. uses b = uses e) actions))
                    \<and> repo e = repo (hd (filter (\<lambda>b. uses b = uses e) actions))
                    \<and> ref e = ref (hd (filter (\<lambda>b. uses b = uses e) actions))
                    \<and> isFirstParty e = isFirstParty (hd (filter (\<lambda>b. uses b = uses e) actions)))))"
proof (intro conjI)
  show "map uses (uniqueByUses xs) = firstOccurrences (map uses xs)"
    by (rule uses_uniqueByUses)
  show "\<forall>a\<in>set (uniqueByUses xs). a = last (filter (\<lambda>b. uses b = uses a) xs)"
    using uniqueByUses_last by blast
  show "\<forall>rep st'. checkAllActions oc actions st = (Inr rep, st') \<longrightarrow>
          map uses (firstParty_actions rep) = firstOccurrences (map uses (filter (\<lambda>a. isFirstParty a) actions))
          \<and> (\<exists>ents. map uses ents = firstOccurrences (map uses (filter (\<lambda>a. \<not> isFirstParty a) actions))
                \<and> mutable_actions rep = filter (\<lambda>e. \<not> entryImmutable e) ents
                \<and> immutable_actions rep = filter entryImmutable ents)
          \<and> ((\<forall>a\<in>set actions. asExtracted a) \<longrightarrow>
                (\<forall>e\<in>set (mutable_actions rep @ immutable_actions rep @ firstParty_actions rep).
                    owner e = owner (hd (filter (\<lambda>b. uses b = uses e) actions))
                    \<and> repo e = repo (hd (filter (\<lambda>b. uses b = uses e) actions))
                    \<and> ref e = ref (hd (filter (\<lambda>b. uses b = uses e) actions))
                    \<and> isFirstParty e = isFirstParty (hd (filter (\<lambda>b. uses b = uses e) actions))))"
  proof (intro allI impI)
    fix rep st'
    assume returned: "checkAllActions oc actions st = (Inr rep, st')"
    let ?zs = "resolved oc actions st"
    let ?ents = "map thirdPartyInfo ?zs"
    let ?mu = "map thirdPartyInfo (filter (\<lambda>(a, r). \<not> immutable r) ?zs)"
    let ?im = "map thirdPartyInfo (filter (\<lambda>(a, r). immutable r) ?zs)"
    let ?fp = "map firstPartyInfo (firstPartyUnique actions)"
    note flat = checkAllActions_flat [OF returned]
    have fp: "map uses (firstParty_actions rep) = firstOccurrences (map uses (filter (\<lambda>a. isFirstParty a) actions))"
      unfolding flat(3) by (simp add: firstPartyInfo_def comp_def firstPartyUnique_def uses_uniqueByUses)
    have origin: "\<exists>a\<in>set actions. uses a = uses e \<and> owner e = owner a \<and> repo e = repo a \<and> ref e = ref a
                    \<and> isFirstParty e = isFirstParty a"
      if e: "e \<in> set (?mu @ ?im @ ?fp)" for e
    proof -
      consider "e \<in> thirdPartyInfo ` set ?zs" | "e \<in> firstPartyInfo ` set (firstPartyUnique actions)"
        using e by auto
      then show ?thesis
      proof cases
        case 1
        then obtain x where x: "x \<in> set ?zs" "e = thirdPartyInfo x" by blast
        then have "fst x \<in> set (thirdPartyUnique actions)"
          using resolved_fst by blast
        then have "fst x \<in> set actions" "\<not> isFirstParty (fst x)"
          unfolding thirdPartyUnique_def
          using set_uniqueByUses_subset [of "filter (\<lambda>a. \<not> isFirstParty a) actions"] by auto
        then show ?thesis using x(2) by (intro bexI [of _ "fst x"]) (simp_all add: thirdPartyInfo_def)
      next
        case 2
        then obtain a where a: "a \<in> set (firstPartyUnique actions)" "e = firstPartyInfo a" by blast
        then have "a \<in> set actions" "isFirstParty a"
          unfolding firstPartyUnique_def
          using set_uniqueByUses_subset [of "filter (\<lambda>a. isFirstParty a) actions"] by auto
        then show ?thesis using a(2) by (intro bexI [of _ a]) (simp_all add: firstPartyInfo_def)
      qed
    qed
    have firsts: "owner e = owner (hd (filter (\<lambda>b. uses b = uses e) actions))
                      \<and> repo e = repo (hd (filter (\<lambda>b. uses b = uses e) actions))
                      \<and> ref e = ref (hd (filter (\<lambda>b. uses b = uses e) actions))
                      \<and> isFirstParty e = isFirstParty (hd (filter (\<lambda>b. uses b = uses e) actions))"
      if all: "\<forall>a\<in>set actions. asExtracted a" and e: "e \<in> set (?mu @ ?im @ ?fp)" for e
    proof -
      obtain a where a: "a \<in> set actions" "uses a = uses e" "owner e = owner a" "repo e = repo a" "ref e = ref a"
          "isFirstParty e = isFirstParty a"
        using origin [OF e] by blast
      let ?h = "hd (filter (\<lambda>b. uses b = uses e) actions)"
      have "filter (\<lambda>b. uses b = uses e) actions \<noteq> []"
        using a(1,2) by (auto simp: filter_empty_conv)
      then have "?h \<in> set (filter (\<lambda>b. uses b = uses e) actions)"
        by (rule hd_in_set)
      then have h: "?h \<in> set actions" "uses ?h = uses e" by auto
      then show ?thesis
        using all a asExtracted_same [of a ?h] by auto
    qed
    have ents: "\<exists>ents. map uses ents = firstOccurrences (map uses (filter (\<lambda>a. \<not> isFirstParty a) actions))
                \<and> mutable_actions rep = filter (\<lambda>e. \<not> entryImmutable e) ents
                \<and> immutable_actions rep = filter entryImmutable ents"
    proof (intro exI conjI)
      show "map uses ?ents = firstOccurrences (map uses (filter (\<lambda>a. \<not> isFirstParty a) actions))"
        by (rule entries_in_order)
      show "mutable_actions rep = filter (\<lambda>e. \<not> entryImmutable e) ?ents"
        unfolding flat(1) by (rule split_by_entryImmutable(1))
      show "immutable_actions rep = filter entryImmutable ?ents"
        unfolding flat(2) by (rule split_by_entryImmutable(2))
    qed
    have hds: "(\<forall>a\<in>set actions. asExtracted a) \<longrightarrow>
                (\<forall>e\<in>set (mutable_actions rep @ immutable_actions rep @ firstParty_actions rep).
                    owner e = owner (hd (filter (\<lambda>b. uses b = uses e) actions))
                    \<and> repo e = repo (hd (filter (\<lambda>b. uses b = uses e) actions))
                    \<and> ref e = ref (hd (filter (\<lambda>b. uses b = uses e) actions))
                    \<and> isFirstParty e = isFirstParty (hd (filter (\<lambda>b. uses b = uses e) actions)))"
      unfolding flat(1,2,3) using firsts by blast
    show "map uses (firstParty_actions rep) = firstOccurrences (map uses (filter (\<lambda>a. isFirstParty a) actions))
          \<and> (\<exists>ents. map uses ents = firstOccurrences (map uses (filter (\<lambda>a. \<not> isFirstParty a) actions))
                \<and> mutable_actions rep = filter (\<lambda>e. \<not> entryImmutable e) ents
                \<and> immutable_actions rep = filter entryImmutable ents)
          \<and> ((\<forall>a\<in>set actions. asExtracted a) \<longrightarrow>
                (\<forall>e\<in>set (mutable_actions rep @ immutable_actions rep @ firstParty_actions rep).
                    owner e = owner (hd (filter (\<lambda>b. uses b = uses e) actions))
                    \<and> repo e = repo (hd (filter (\<lambda>b. uses b = uses e) actions))
                    \<and> ref e = ref (hd (filter (\<lambda>b. uses b = uses e) actions))
                    \<and> isFirstParty e = isFirstParty (hd (filter (\<lambda>b. uses b = uses e) actions))))"
      using fp ents hds by (intro conjI)
  qed
qed

theorem uniqueByUses_first_position_last_value_witness:
  "map uses (uniqueByUses [checkout, refV1, refV1_again, refV1_deploy]) = [''actions/checkout@v4'', ''owner/repo@v1'']
   \<and> (\<exists>rep st'. checkAllActions notFound [checkout, refV1, refV1_again, refV1_deploy] st0 = (Inr rep, st')
         \<and> map uses (firstParty_actions rep) = [''actions/checkout@v4'']
         \<and> map uses (mutable_actions rep @ immutable_actions rep @ firstParty_actions rep)
               = [''owner/repo@v1'', ''actions/checkout@v4''])"
proof -
  let ?acts = "[checkout, refV1, refV1_again, refV1_deploy]"
  have fo: "firstOccurrences (map uses ?acts) = [''actions/checkout@v4'', ''owner/repo@v1'']"
    by (simp add: firstOccurrences_def example_defs)
  have fo': "firstOccurrences (map uses (filter (\<lambda>a. isFirstParty a) ?acts)) = [''actions/checkout@v4'']"
    by (simp add: firstOccurrences_def example_defs)
  have fo'': "firstOccurrences (map uses (filter (\<lambda>a. \<not> isFirstParty a) ?acts)) = [''owner/repo@v1'']"
    by (simp add: firstOccurrences_def example_defs)
  note inst = uniqueByUses_first_position_last_value [of ?acts notFound ?acts st0]
  have a: "map uses (uniqueByUses ?acts) = [''actions/checkout@v4'', ''owner/repo@v1'']"
    using inst fo by simp
  obtain rep st' where run: "checkAllActions notFound ?acts st0 = (Inr rep, st')"
    using examples_returned by blast
  note flat = inst [THEN conjunct2, THEN conjunct2, rule_format, OF run]
  have b: "map uses (firstParty_actions rep) = [''actions/checkout@v4'']"
    using flat [THEN conjunct1] unfolding fo' .
  obtain ents where ents0: "map uses ents = firstOccurrences (map uses (filter (\<lambda>a. \<not> isFirstParty a) ?acts))"
    and ents: "mutable_actions rep = filter (\<lambda>e. \<not> entryImmutable e) ents"
      "immutable_actions rep = filter entryImmutable ents"
    using flat [THEN conjunct2, THEN conjunct1] by (elim exE conjE)
  obtain e where e: "ents = [e]" "uses e = ''owner/repo@v1''"
    using ents0 unfolding fo'' by auto
  have c: "map uses (mutable_actions rep @ immutable_actions rep) = [''owner/repo@v1'']"
    unfolding ents e(1) using e(2) by simp
  show ?thesis
    using a run b c by auto
qed

text \<open>
  C6 as it is written fails on two steps of one job that use the same action: the entry
  kept is the second step's.
\<close>

theorem uniqueByUses_keeps_last:
  "uniqueByUses [refV1, refV1_again] = [refV1_again] \<and> refV1_again \<noteq> refV1"
  by (simp add: uniqueByUses_def new_Map_def map_values_def refV1_def refV1_again_def)

section \<open>The outcome of the run\<close>

lemma checkReleaseImmutability_core:
  assumes "checkReleaseImmutability oc ow rp r st = (x, st1)"
  shows "failed st1 = failed st" and "outputs st1 = outputs st"
proof -
  obtain resp w where oc: "oc (world st) (ow, rp, r) = (resp, w)" by (cases "oc (world st) (ow, rp, r)")
  show "failed st1 = failed st"
    using assms oc
    by (cases resp)
       (auto simp: checkReleaseImmutability_def tryGetRelease_def getReleaseByTag_def Let_def warning_def
             split: if_splits thrown.splits)
  show "outputs st1 = outputs st"
    using assms oc
    by (cases resp)
       (auto simp: checkReleaseImmutability_def tryGetRelease_def getReleaseByTag_def Let_def warning_def
             split: if_splits thrown.splits)
qed

lemma afterResolutions_core:
  "failed (afterResolutions oc as st) = failed st \<and> outputs (afterResolutions oc as st) = outputs st"
proof (induction as arbitrary: st)
  case Nil
  show ?case by simp
next
  case (Cons a as)
  obtain x st1 where r: "checkReleaseImmutability oc (owner a) (repo a) (ref a) (info (checkingLine a) st) = (x, st1)"
    by (cases "checkReleaseImmutability oc (owner a) (repo a) (ref a) (info (checkingLine a) st)")
  have step: "afterResolutions oc (a # as) st = afterResolutions oc as st1"
    using r by simp
  show ?case
    unfolding step using checkReleaseImmutability_core [OF r] Cons.IH [of st1] by (simp add: info_def)
qed

lemma extractActionsFromWorkflow_core:
  "failed (snd (extractActionsFromWorkflow w st)) = failed st
   \<and> outputs (snd (extractActionsFromWorkflow w st)) = outputs st"
  by (simp add: extractActionsFromWorkflow_def warning_def split: sum.splits document.splits)

lemma extractAll_core:
  "failed (snd (extractAll ws acc st)) = failed st \<and> outputs (snd (extractAll ws acc st)) = outputs st"
proof (induction ws arbitrary: acc st)
  case Nil
  show ?case by simp
next
  case (Cons w ws)
  obtain actions st1 where e: "extractActionsFromWorkflow w st = (actions, st1)"
    by (cases "extractActionsFromWorkflow w st")
  then show ?case
    using extractActionsFromWorkflow_core [of w st] Cons.IH [of "acc @ actions" st1] by simp
qed

lemma checkReleaseImmutability_immutable_message:
  assumes "checkReleaseImmutability oc ow rp r st = (Inr res, st1)" and "immutable res"
  shows "message res = ''Immutable release'' \<or> message res = ''Immutable (full SHA reference)''"
proof -
  obtain resp w where oc: "oc (world st) (ow, rp, r) = (resp, w)" by (cases "oc (world st) (ow, rp, r)")
  show ?thesis
    using assms oc
    by (cases resp)
       (auto simp: checkReleaseImmutability_def tryGetRelease_def getReleaseByTag_def Let_def
             split: if_splits thrown.splits)
qed

lemma resolutions_immutable_message:
  assumes "resolves oc as st" and "res \<in> set (resolutions oc as st)" and "immutable res"
  shows "message res = ''Immutable release'' \<or> message res = ''Immutable (full SHA reference)''"
  using assms
proof (induction as arbitrary: st)
  case Nil
  then show ?case by simp
next
  case (Cons a as)
  obtain x st1 where r0: "checkReleaseImmutability oc (owner a) (repo a) (ref a) (info (checkingLine a) st) = (x, st1)"
    by (cases "checkReleaseImmutability oc (owner a) (repo a) (ref a) (info (checkingLine a) st)")
  then obtain res1 where x: "x = Inr res1" and rest: "resolves oc as st1"
    using Cons.prems(1) by (cases x) simp_all
  note r = r0 [unfolded x]
  have "res = res1 \<or> res \<in> set (resolutions oc as st1)"
    using Cons.prems(2) r by simp
  then show ?case
    using checkReleaseImmutability_immutable_message [OF r] Cons.IH [OF rest] Cons.prems(3) by auto
qed

lemma resolved_outcome:
  assumes "resolves oc as st" and "(a, r) \<in> set (zip as (resolutions oc as st))"
  shows "\<exists>s s1. checkReleaseImmutability oc (owner a) (repo a) (ref a) s = (Inr r, s1)"
  using assms
proof (induction as arbitrary: st)
  case Nil
  then show ?case by simp
next
  case (Cons b bs)
  obtain x st1 where r0: "checkReleaseImmutability oc (owner b) (repo b) (ref b) (info (checkingLine b) st) = (x, st1)"
    by (cases "checkReleaseImmutability oc (owner b) (repo b) (ref b) (info (checkingLine b) st)")
  then obtain res where x: "x = Inr res" and rest: "resolves oc bs st1"
    using Cons.prems(1) by (cases x) simp_all
  note r1 = r0 [unfolded x]
  have "(a, r) = (b, res) \<or> (a, r) \<in> set (zip bs (resolutions oc bs st1))"
    using Cons.prems(2) r1 by simp
  then show ?case
  proof
    assume "(a, r) = (b, res)"
    then show ?thesis using r1 by blast
  next
    assume "(a, r) \<in> set (zip bs (resolutions oc bs st1))"
    then show ?thesis using Cons.IH [OF rest] by blast
  qed
qed

lemma checkReleaseImmutability_fault:
  assumes "checkReleaseImmutability oc ow rp r st = (Inr res, st1)"
    and "\<not> isFullSHA r" and "fst (oc (world st) (ow, rp, r)) = Thrown t"
  shows "\<not> immutable res \<and> \<not> releaseFound res"
proof -
  obtain w where oc: "oc (world st) (ow, rp, r) = (Thrown t, w)"
    using assms(3) by (cases "oc (world st) (ow, rp, r)") simp
  show ?thesis
    using assms(1,2) oc
    by (cases t)
       (auto simp: checkReleaseImmutability_def tryGetRelease_def getReleaseByTag_def split: if_splits)
qed

text \<open>
  A third-party reference whose lookup throws, whatever the state of the remote service,
  has its entry in the mutable list of the report that is returned, with a result that is
  not immutable and has no release.
\<close>

lemma lookup_fault_is_mutable:
  assumes "checkAllActions oc actions st = (Inr rep, st')"
    and "a \<in> set actions" and "\<not> isFirstParty a"
    and "\<forall>b\<in>set actions. uses b = uses a \<longrightarrow> owner b = owner a \<and> repo b = repo a \<and> ref b = ref a"
    and "\<not> isFullSHA (ref a)"
    and "\<forall>w. \<exists>t. fst (oc w (owner a, repo a, ref a)) = Thrown t"
  shows "\<exists>e\<in>set (mutable_actions rep). uses e = uses a
            \<and> (\<exists>r. result e = Some r \<and> \<not> immutable r \<and> \<not> releaseFound r)"
proof -
  note ret = checkAllActions_returned [OF assms(1)]
  have "uses a \<in> uses ` set (filter (\<lambda>a. \<not> isFirstParty a) actions)"
    using assms(2,3) by auto
  then have "uses a \<in> uses ` set (thirdPartyUnique actions)"
    unfolding thirdPartyUnique_def set_uses_uniqueByUses .
  then obtain b where b: "b \<in> set (thirdPartyUnique actions)" "uses b = uses a"
    by auto
  have "b \<in> set actions"
    using b(1) set_uniqueByUses_subset [of "filter (\<lambda>a. \<not> isFirstParty a) actions"]
    unfolding thirdPartyUnique_def by auto
  then have same: "owner b = owner a" "repo b = repo a" "ref b = ref a"
    using assms(4) b(2) by auto
  have "b \<in> set (map fst (resolved oc actions st))"
    unfolding resolved_def using b(1) by (simp add: length_resolutions)
  then obtain r where z: "(b, r) \<in> set (resolved oc actions st)"
    by auto
  then obtain s s1 where c: "checkReleaseImmutability oc (owner b) (repo b) (ref b) s = (Inr r, s1)"
    using resolved_outcome [OF ret(4), of b r] unfolding resolved_def by blast
  obtain t where "fst (oc (world s) (owner a, repo a, ref a)) = Thrown t"
    using assms(6) by blast
  then have r: "\<not> immutable r \<and> \<not> releaseFound r"
    using checkReleaseImmutability_fault [OF c] assms(5) same by simp
  then have "thirdPartyInfo (b, r) \<in> set (mutable_actions rep)"
    unfolding ret(1) using z by auto
  moreover have "uses (thirdPartyInfo (b, r)) = uses a" "result (thirdPartyInfo (b, r)) = Some r"
    using b(2) by (simp_all add: thirdPartyInfo_def)
  ultimately show ?thesis using r by blast
qed

lemma map_get_setOutput:
  "map_get (outputs (setOutput n v st)) k = (if k = n then Some v else map_get (outputs st) k)"
  by (simp add: setOutput_def map_get_def map_of_map_set)

lemma failed_setOutput: "failed (setOutput n v st) = failed st"
  by (simp add: setOutput_def)

lemma extractAll_Nil: "extractAll [] [] st = (xs, st1) \<Longrightarrow> xs = []"
  by simp

text \<open>
  When the run has a token, has extracted at least one action and the aggregation has
  returned its report, the output \<open>all-passed\<close> says whether the mutable list is empty,
  and the run is marked failed exactly when the policy flag is set and the mutable list is
  not empty. Every unique third-party reference has its entry in the mutable or in the
  immutable list; an entry of the immutable list carries an immutable result, whose
  message is one of the two the resolver gives on success; an entry of the mutable list
  carries a result that is not immutable. So a reference whose lookup failed, whose result
  the resolver marks not immutable, is in the mutable list.
\<close>

lemma run_outcome:
  assumes "getInput e ''github-token'' \<noteq> []"
    and "extractAll (workflowFiles e) [] st = (allActions, st1)"
    and "allActions \<noteq> []"
    and "checkAllActions oc allActions st1 = (Inr rep, st2)"
    and "failed st = None"
  shows "map_get (outputs (run e oc st)) ''all-passed'' = Some (OutBool (mutable_actions rep = []))
     \<and> (failed (run e oc st) \<noteq> None) = (getBooleanInput e ''fail-on-mutable'' \<and> mutable_actions rep \<noteq> [])
     \<and> (\<forall>a\<in>set (uniqueByUses (filter (\<lambda>a. \<not> isFirstParty a) allActions)).
           uses a \<in> uses ` set (mutable_actions rep @ immutable_actions rep))
     \<and> (\<forall>x\<in>set (immutable_actions rep). \<exists>r. result x = Some r \<and> immutable r
           \<and> (message r = ''Immutable release'' \<or> message r = ''Immutable (full SHA reference)''))
     \<and> (\<forall>x\<in>set (mutable_actions rep). \<exists>r. result x = Some r \<and> \<not> immutable r)"
proof -
  let ?zs = "resolved oc allActions st1"
  note flat = checkAllActions_flat [OF assms(4)]
  have files: "workflowFiles e \<noteq> []"
    using assms(2,3) by auto
  have f1: "failed st1 = None"
    using extractAll_core [of "workflowFiles e" "[]" st] assms(2,5) by simp
  have f2: "failed st2 = None"
    unfolding flat(4) using afterResolutions_core [of oc "thirdPartyUnique allActions" st1] f1 by simp
  have out: "map_get (outputs (run e oc st)) ''all-passed'' = Some (OutBool (mutable_actions rep = []))"
    using assms(1-4) files
    by (simp add: run_def Let_def map_get_setOutput setFailed_def)
  have fail: "(failed (run e oc st) \<noteq> None) = (getBooleanInput e ''fail-on-mutable'' \<and> mutable_actions rep \<noteq> [])"
    using assms(1-4) files f2
    by (simp add: run_def Let_def failed_setOutput setFailed_def)
  have cover: "uses a \<in> uses ` set (mutable_actions rep @ immutable_actions rep)"
    if a: "a \<in> set (uniqueByUses (filter (\<lambda>a. \<not> isFirstParty a) allActions))" for a
  proof -
    have "length (filter (\<lambda>e. uses e = uses a) (mutable_actions rep @ immutable_actions rep))
            = length (filter (\<lambda>b. uses b = uses a) (thirdPartyUnique allActions))"
      unfolding flat(1,2) by (rule count_resolved)
    moreover have "filter (\<lambda>b. uses b = uses a) (thirdPartyUnique allActions) \<noteq> []"
      using a by (auto simp: thirdPartyUnique_def filter_empty_conv)
    ultimately have "filter (\<lambda>e. uses e = uses a) (mutable_actions rep @ immutable_actions rep) \<noteq> []"
      by auto
    then obtain x where "x \<in> set (mutable_actions rep @ immutable_actions rep)" "uses x = uses a"
      unfolding filter_empty_conv by blast
    then show ?thesis by (metis imageI)
  qed
  have imm: "\<exists>r. result x = Some r \<and> immutable r
           \<and> (message r = ''Immutable release'' \<or> message r = ''Immutable (full SHA reference)'')"
    if x: "x \<in> set (immutable_actions rep)" for x
  proof -
    obtain z where z: "z \<in> set ?zs" "immutable (snd z)" "x = thirdPartyInfo z"
      using x unfolding flat(2) by auto
    then have "snd z \<in> set (resolutions oc (thirdPartyUnique allActions) st1)"
      unfolding resolved_def by (metis set_zip_rightD prod.collapse)
    then show ?thesis
      using z resolutions_immutable_message [OF checkAllActions_returned(4) [OF assms(4)], of "snd z"]
      by (simp add: thirdPartyInfo_def)
  qed
  have mut: "\<exists>r. result x = Some r \<and> \<not> immutable r" if x: "x \<in> set (mutable_actions rep)" for x
    using x unfolding flat(1) by (auto simp: thirdPartyInfo_def)
  show ?thesis
    using out fail cover imm mut by (intro conjI ballI)
qed

lemma env1_extract:
  "extractAll (workflowFiles env1) [] st0 = ([checkout, refV1], st0)"
  by (simp add: env1_def extractActionsFromWorkflow_def basename_def parseActionReference_string
        actionPattern_eq repo_part_def tail_ref_def rx_dot_def shouldExcludeAction_def numeral_2_eq_2
        checkout_def refV1_def)

lemma env1_check:
  "\<exists>rep st2. checkAllActions serverError [checkout, refV1] st0 = (Inr rep, st2) \<and> mutable_actions rep \<noteq> []"
proof -
  have files: "\<forall>a\<in>set [checkout, refV1]. workflowFile a \<notin> set objectPrototypeKeys"
    by (simp add: example_defs objectPrototypeKeys_def)
  have "\<forall>w rq. \<not> nullish (fst (serverError w rq))"
    by (simp add: serverError_def nullish_def)
  then have "resolves serverError (thirdPartyUnique [checkout, refV1]) st0"
    by (rule resolves_if)
  note eq = checkAllActions_eq [OF files this]
  have u: "thirdPartyUnique [checkout, refV1] = [refV1]"
    by (simp add: thirdPartyUnique_def uniqueByUses_def new_Map_def map_values_def example_defs)
  have "resolved serverError [checkout, refV1] st0 =
          [(refV1, \<lparr>immutable = False, releaseFound = False, message = ''API error: Server Error''\<rparr>)]"
    unfolding resolved_def u
    by (simp add: checkReleaseImmutability_def isFullSHA_iff tryGetRelease_def getReleaseByTag_def
          serverError_def refV1_def)
  then show ?thesis unfolding eq by simp
qed

text \<open>A lookup that fails with a server error: the run does not pass, and fails.\<close>

lemma run_outcome_server_error:
  "map_get (outputs (run env1 serverError st0)) ''all-passed'' = Some (OutBool False)
   \<and> failed (run env1 serverError st0) \<noteq> None"
proof -
  obtain rep st2 where c: "checkAllActions serverError [checkout, refV1] st0 = (Inr rep, st2)"
    and m: "mutable_actions rep \<noteq> []"
    using env1_check by blast
  have t: "getInput env1 ''github-token'' \<noteq> []"
    by (simp add: getInput_def env1_def)
  have b: "getBooleanInput env1 ''fail-on-mutable''"
    by (simp add: getBooleanInput_def getInput_def env1_def toLowerCase_def)
  have n: "[checkout, refV1] \<noteq> []" by simp
  have f: "failed st0 = None" by (simp add: st0_def)
  show ?thesis
    using run_outcome [OF t env1_extract n c f] m b by simp
qed

lemma envConstructor_extract:
  "extractAll (workflowFiles envConstructor) [] st0 = ([refV1_constructor], st0)"
  by (simp add: envConstructor_def extractActionsFromWorkflow_def basename_def parseActionReference_string
        actionPattern_eq repo_part_def tail_ref_def rx_dot_def shouldExcludeAction_def numeral_2_eq_2
        refV1_constructor_def)

lemma envConstructor_check:
  "checkAllActions immutableRelease [refV1_constructor] st0
     = (Inl (typeError ''actionsByWorkflow[workflowFile].push is not a function''),
        st0\<lparr>requests := [(''owner'', ''repo'', ''v1'')], infos := [''Checking owner/repo@v1...'']\<rparr>)"
  by (simp add: checkAllActions_def uniqueByUses_def new_Map_def map_values_def refV1_constructor_def
        checkReleaseImmutability_def isFullSHA_iff tryGetRelease_def getReleaseByTag_def immutableRelease_def
        info_def checkingLine_def map_get_def objectPrototypeKeys_def st0_def)

text \<open>
  C8: a run that reaches the aggregation sets the output \<open>all-passed\<close> to whether the
  mutable list is empty, and is marked failed exactly when the policy flag is set and that
  list is not empty. This fails on a workflow file named like a property of
  \<^verbatim>\<open>Object.prototype\<close>. A run with a token, the policy flag off and one workflow file
  named \<open>constructor\<close>, whose one reference has an immutable release, reaches the
  aggregation; the grouping by workflow throws there, and the run is marked failed
  without the output \<open>all-passed\<close>, where C8 has the output true and no failure.
\<close>

theorem run_constructor_file:
  "getBooleanInput envConstructor ''fail-on-mutable'' = False
   \<and> failed (run envConstructor immutableRelease st0)
       = Some ''Action failed with error: actionsByWorkflow[workflowFile].push is not a function''
   \<and> map_get (outputs (run envConstructor immutableRelease st0)) ''all-passed'' = None"
proof -
  have t: "getInput envConstructor ''github-token'' = ''token''"
    by (simp add: getInput_def envConstructor_def)
  have b: "getBooleanInput envConstructor ''fail-on-mutable'' = False"
    by (simp add: getBooleanInput_def getInput_def envConstructor_def toLowerCase_def)
  have n: "length (workflowFiles envConstructor) = 1"
    by (simp add: envConstructor_def)
  have r: "run envConstructor immutableRelease st0
        = setFailed ''Action failed with error: actionsByWorkflow[workflowFile].push is not a function''
            (st0\<lparr>requests := [(''owner'', ''repo'', ''v1'')], infos := [''Checking owner/repo@v1...'']\<rparr>)"
    unfolding run_def Let_def t n envConstructor_extract
    by (simp add: envConstructor_check typeError_def)
  show ?thesis
    unfolding r using b by (simp add: setFailed_def st0_def map_get_def)
qed


section \<open>What the extraction builds\<close>

text \<open>
  Every entry the extraction returns has the owner, repository name and ref that parsing
  its \<open>uses\<close> string gives, the first-party flag of its owner, and the base name of the
  file as its workflow file: the lists a run hands to the aggregation are of the kind the
  theorems above are about.
\<close>

lemma parseActionReference_Some_string:
  "parseActionReference v = Inr (Some p) \<Longrightarrow> v = JString (asString v)"
  by (cases v) (simp_all add: parseActionReference_def)

lemma extractSteps_asExtracted:
  assumes "extractSteps file jn ss acc = Inr acc'" and "\<forall>a\<in>set acc. asExtracted a \<and> workflowFile a = file"
  shows "\<forall>a\<in>set acc'. asExtracted a \<and> workflowFile a = file"
  using assms
proof (induction ss arbitrary: acc)
  case Nil
  then show ?case by simp
next
  case (Cons s ss)
  note run = Cons.prems(1) and inv = Cons.prems(2)
  show ?case
  proof (cases "truthy (step_uses s)")
    case False
    then have "extractSteps file jn ss acc = Inr acc'"
      using run by simp
    then show ?thesis using inv by (rule Cons.IH)
  next
    case True
    show ?thesis
    proof (cases "parseActionReference (step_uses s)")
      case (Inl err)
      then have "extractSteps file jn (s # ss) acc = Inl err"
        using True by simp
      then show ?thesis using run by simp
    next
      case (Inr res)
      show ?thesis
      proof (cases res)
        case None
        then have "extractSteps file jn (s # ss) acc = extractSteps file jn ss acc"
          using True Inr by simp
        then have "extractSteps file jn ss acc = Inr acc'"
          using run by simp
        then show ?thesis using inv by (rule Cons.IH)
      next
        case (Some p)
        let ?a = "\<lparr>owner = owner p, repo = repo p, ref = ref p, uses = asString (step_uses s),
                    isFirstParty = shouldExcludeAction (owner p), workflowFile = file, jobName = jn,
                    stepName = (if truthy (step_name s) then step_name s else JString ''unnamed step'')\<rparr>"
        have "step_uses s = JString (asString (step_uses s))"
          using Inr Some by (intro parseActionReference_Some_string [of _ p]) simp
        then have "parseActionReference (JString (asString (step_uses s))) = Inr (Some p)"
          using Inr Some by simp
        then have "asExtracted ?a \<and> workflowFile ?a = file"
          unfolding asExtracted_def by simp
        then have inv': "\<forall>a\<in>set (acc @ [?a]). asExtracted a \<and> workflowFile a = file"
          using inv by simp
        have "extractSteps file jn (s # ss) acc = extractSteps file jn ss (acc @ [?a])"
          using True Inr Some by simp
        then have "extractSteps file jn ss (acc @ [?a]) = Inr acc'"
          using run by simp
        then show ?thesis using inv' by (rule Cons.IH)
      qed
    qed
  qed
qed

lemma extractJobs_asExtracted:
  assumes "extractJobs file jobs acc = Inr acc'" and "\<forall>a\<in>set acc. asExtracted a \<and> workflowFile a = file"
  shows "\<forall>a\<in>set acc'. asExtracted a \<and> workflowFile a = file"
  using assms
proof (induction jobs arbitrary: acc)
  case Nil
  then show ?case by simp
next
  case (Cons j jobs)
  obtain jn ss where j: "j = (jn, ss)" by (cases j)
  obtain acc1 where s: "extractSteps file jn ss acc = Inr acc1" and r: "extractJobs file jobs acc1 = Inr acc'"
    using Cons.prems(1) unfolding j by (auto split: sum.splits)
  have "\<forall>a\<in>set acc1. asExtracted a \<and> workflowFile a = file"
    using extractSteps_asExtracted [OF s Cons.prems(2)] .
  then show ?case using Cons.IH [OF r] by simp
qed

lemma extractActionsFromWorkflow_asExtracted:
  "\<forall>a\<in>set (fst (extractActionsFromWorkflow w st)). asExtracted a \<and> workflowFile a = basename (path w)"
proof (cases "content w")
  case (Unreadable err)
  then show ?thesis by (simp add: extractActionsFromWorkflow_def)
next
  case (Workflow jobs)
  show ?thesis
  proof (cases "extractJobs (basename (path w)) jobs []")
    case (Inl err)
    then show ?thesis using Workflow by (simp add: extractActionsFromWorkflow_def)
  next
    case (Inr actions)
    then show ?thesis
      using Workflow extractJobs_asExtracted [OF Inr] by (simp add: extractActionsFromWorkflow_def)
  qed
qed

lemma extractAll_asExtracted:
  assumes "\<forall>a\<in>set acc. asExtracted a"
  shows "\<forall>a\<in>set (fst (extractAll ws acc st)). asExtracted a"
  using assms
proof (induction ws arbitrary: acc st)
  case Nil
  then show ?case by simp
next
  case (Cons w ws)
  obtain actions st1 where e: "extractActionsFromWorkflow w st = (actions, st1)"
    by (cases "extractActionsFromWorkflow w st")
  have "\<forall>a\<in>set (acc @ actions). asExtracted a"
    using Cons.prems extractActionsFromWorkflow_asExtracted [of w st] e by auto
  then show ?case using Cons.IH [of "acc @ actions" st1] e by simp
qed

end
